theory Spec2Isabelle
  imports Main "HOL-Library.Word"
begin

unbundle bit_operations_syntax

section \<open>Machine integers of the firmware\<close>

text \<open>
  The firmware runs on a 32-bit target: \<open>int\<close> and \<open>long\<close> are 32 bits wide,
  \<open>uint16_t\<close>/\<open>int16_t\<close> operands are promoted to \<open>int\<close> before arithmetic, and a
  result stored back into a narrower variable is truncated. Values are modelled as
  words; an expression evaluated in promoted \<open>int\<close> arithmetic that provably stays in
  range is written on \<open>int\<close> (through \<open>uint\<close>/\<open>sint\<close>) and truncated by
  \<open>word_of_int\<close> where the source stores it.
\<close>

type_synonym u16 = "16 word"
type_synonym i16 = "16 word"
type_synonym u32 = "32 word"
type_synonym i32 = "32 word"

text \<open>Integer division of C and C++: the quotient is truncated towards zero.\<close>

definition c_div :: "int \<Rightarrow> int \<Rightarrow> int" where
  "c_div a b = (if (a < 0) = (b < 0) then \<bar>a\<bar> div \<bar>b\<bar> else - (\<bar>a\<bar> div \<bar>b\<bar>))"

definition c_rem :: "int \<Rightarrow> int \<Rightarrow> int" where
  "c_rem a b = a - b * c_div a b"

section \<open>LFO (lfo.cc)\<close>

text \<open>
  The fields of class \<open>Lfo\<close>, named as in the source without the trailing
  underscore (\<open>phase\<close> is \<open>phase_\<close>); locals of the source that would clash
  with a field are abbreviated (\<open>ph\<close>, \<open>p\<close>). The class declaration (lfo.h) is not among the sources;
  the widths follow the constants the code assigns (\<open>UINT32_MAX\<close>, \<open>UINT16_MAX\<close>) and
  the types of the locals the fields are copied to (\<open>uint32_t phase\<close>,
  \<open>int16_t pitch\<close>). \<open>divider\<close> and \<open>divider_count\<close> are unsigned counters of
  undeclared width and are kept as natural numbers: every expression they occur in is
  evaluated in 32-bit unsigned arithmetic, into which they are converted by \<open>of_nat\<close>.
\<close>

record lfo =
  phase :: u32
  divided_phase :: u32
  initial_phase :: u32
  phase_increment :: u32
  divider :: nat
  divider_count :: nat
  level :: u16
  pitch :: i16
  divided_pitch :: i16

definition UINT32_MAX :: u32 where
  "UINT32_MAX = 4294967295"

definition UINT16_MAX :: u16 where
  "UINT16_MAX = 65535"

definition Lfo_Init :: "lfo \<Rightarrow> lfo" where
  "Lfo_Init l = l\<lparr>phase := 0,
                  divided_phase := 0,
                  initial_phase := 0,
                  phase_increment := drop_bit 8 UINT32_MAX,
                  divider := 1,
                  divider_count := 0,
                  level := UINT16_MAX\<rparr>"

text \<open>
  \<open>Lfo::Step\<close>. The remainder and the two divisions trap in the source when
  \<open>divider\<close> is 0; every statement about \<open>Step\<close> below assumes a divider of at
  least 1.
\<close>

definition Step :: "lfo \<Rightarrow> lfo" where
  "Step l =
    (let ph = phase l + phase_increment l;
         cnt =
           (if ph < phase_increment l
            then (divider_count l + 1) mod divider l
            else divider_count l)
     in l\<lparr>phase := ph,
          divider_count := cnt,
          divided_phase :=
            ph div of_nat (divider l) +
            UINT32_MAX div of_nat (divider l) * of_nat cnt\<rparr>)"

subsection \<open>Resources and helpers declared outside the sources\<close>

text \<open>
  lfo.cc uses constants (\<open>kOctave\<close>, \<open>kPitch1Hz\<close>, \<open>kPitch10Hz\<close>, \<open>kPitch100Hz\<close>),
  lookup tables (\<open>lut_increments\<close>, the \<open>wav_*\<close> wavetables) and two interpolation
  helpers of the DSP library (\<open>Interpolate1022\<close>, \<open>Crossfade1022\<close>) whose
  definitions are not among the sources. They are parameters of the model: every
  theorem holds for all of them, or states what it needs of them. The pitch constants
  are taken to be 16 bits wide, as the pitch values they are compared with.
\<close>

type_synonym wavetable = "nat \<Rightarrow> i16"

record resources =
  kOctave :: i16
  kPitch1Hz :: i16
  kPitch10Hz :: i16
  kPitch100Hz :: i16
  lut_increments :: "nat \<Rightarrow> u32"
  wav_tri10 :: wavetable
  wav_tri100 :: wavetable
  wav_saw10 :: wavetable
  wav_saw100 :: wavetable
  wav_trap10 :: wavetable
  wav_trap100 :: wavetable
  Interpolate1022 :: "wavetable \<Rightarrow> u32 \<Rightarrow> i16"
  Crossfade1022 :: "wavetable \<Rightarrow> wavetable \<Rightarrow> u32 \<Rightarrow> u16 \<Rightarrow> i16"

subsection \<open>ComputePhaseIncrement\<close>

text \<open>
  The two normalisation loops of \<open>ComputePhaseIncrement\<close>, on \<open>int16_t\<close> variables.
  With a non-positive \<open>kOctave\<close> they need not terminate, so they are partial
  functions: \<open>None\<close> is a loop that runs forever.
\<close>

partial_function (option) octave_up_loop :: "i16 \<Rightarrow> i16 \<Rightarrow> i16 \<Rightarrow> (i16 \<times> i16) option" where
  "octave_up_loop k p num_shifts =
    (if p <s 0 then octave_up_loop k (p + k) (num_shifts - 1)
     else Some (p, num_shifts))"

partial_function (option) octave_down_loop :: "i16 \<Rightarrow> i16 \<Rightarrow> i16 \<Rightarrow> (i16 \<times> i16) option" where
  "octave_down_loop k p num_shifts =
    (if k \<le>s p then octave_down_loop k (p - k) (num_shifts + 1)
     else Some (p, num_shifts))"

text \<open>
  The table lookup, the interpolation in \<open>uint32_t\<close> arithmetic and the final shift.
  A shift by 32 or more is undefined in the source; the statements below keep the shift
  count under 32.
\<close>

definition lookup_increment :: "resources \<Rightarrow> i16 \<Rightarrow> u32" where
  "lookup_increment r p =
    (let a = lut_increments r (nat (drop_bit 4 (sint p)));
         b = lut_increments r (nat (drop_bit 4 (sint p) + 1))
     in a + drop_bit 4 ((b - a) * word_of_int (sint p AND 15)))"

definition shift_increment :: "u32 \<Rightarrow> i16 \<Rightarrow> u32" where
  "shift_increment inc num_shifts =
    (if 0 \<le> sint num_shifts
     then push_bit (nat (sint num_shifts)) inc
     else drop_bit (nat (- sint num_shifts)) inc)"

definition ComputePhaseIncrement :: "resources \<Rightarrow> i16 \<Rightarrow> lfo \<Rightarrow> (u32 \<times> lfo) option" where
  "ComputePhaseIncrement r p l =
    (case octave_up_loop (kOctave r) p 0 of
       None \<Rightarrow> None
     | Some (pitch1, shifts1) \<Rightarrow>
        (case octave_down_loop (kOctave r) pitch1 shifts1 of
           None \<Rightarrow> None
         | Some (pitch2, num_shifts) \<Rightarrow>
             Some (shift_increment (lookup_increment r pitch2) num_shifts,
                   l\<lparr>pitch := p\<rparr>)))"

subsection \<open>Waveform computations\<close>

datatype LfoShape = SHAPE_TRIANGLE | SHAPE_SAW | SHAPE_RAMP | SHAPE_TRAPEZOID

text \<open>
  \<open>x * level >> 16\<close>: both operands are promoted to \<open>int\<close>, the product of a 16-bit
  signed and a 16-bit unsigned value fits 32 bits, and the right shift of a negative
  \<open>int\<close> is arithmetic on the target.
\<close>

definition scale_by_level :: "i16 \<Rightarrow> u16 \<Rightarrow> i16" where
  "scale_by_level x lev = word_of_int ((sint x * uint lev) div 65536)"

text \<open>The crossfade weight of the two upper bands and of the band below them.\<close>

definition band_balance :: "i16 \<Rightarrow> i16 \<Rightarrow> i16 \<Rightarrow> u16" where
  "band_balance p lo hi =
    word_of_int (c_div ((sint p - sint lo) * 65535) (sint hi - sint lo))"

definition mix_closed_form :: "i16 \<Rightarrow> i16 \<Rightarrow> u16 \<Rightarrow> i16" where
  "mix_closed_form a b balance =
    word_of_int (sint a + ((sint b - sint a) * uint balance) div 65536)"

definition triangle_of_phase :: "u32 \<Rightarrow> i16" where
  "triangle_of_phase ph =
    (if ph < push_bit 31 1
     then ucast (word_of_int (- 32768) + drop_bit 15 ph :: u32)
     else ucast (32767 - drop_bit 15 ph :: u32))"

definition ComputeSampleTriangle :: "resources \<Rightarrow> lfo \<Rightarrow> i16" where
  "ComputeSampleTriangle r l =
    (let ph = initial_phase l + divided_phase l;
         tri = triangle_of_phase ph;
         p = divided_pitch l;
         x = (if kPitch100Hz r <s p then Interpolate1022 r (wav_tri100 r) ph
              else if kPitch10Hz r <s p then
                Crossfade1022 r (wav_tri10 r) (wav_tri100 r) ph
                  (band_balance p (kPitch10Hz r) (kPitch100Hz r))
              else if kPitch1Hz r <s p then
                mix_closed_form tri (Interpolate1022 r (wav_tri10 r) ph)
                  (band_balance p (kPitch1Hz r) (kPitch10Hz r))
              else tri)
     in scale_by_level x (level l))"

definition ComputeSampleRamp :: "resources \<Rightarrow> lfo \<Rightarrow> i16" where
  "ComputeSampleRamp r l =
    (let ph = initial_phase l + divided_phase l;
         ramp = (ucast (word_of_int (- 32678) + drop_bit 16 ph :: u32) :: i16);
         p = divided_pitch l;
         x = (if kPitch100Hz r <s p then Interpolate1022 r (wav_saw100 r) ph
              else if kPitch10Hz r <s p then
                Crossfade1022 r (wav_saw10 r) (wav_saw100 r) ph
                  (band_balance p (kPitch10Hz r) (kPitch100Hz r))
              else if kPitch1Hz r <s p then
                mix_closed_form ramp (Interpolate1022 r (wav_saw10 r) ph)
                  (band_balance p (kPitch1Hz r) (kPitch10Hz r))
              else ramp)
     in scale_by_level x (level l))"

definition ComputeSampleSaw :: "resources \<Rightarrow> lfo \<Rightarrow> i16" where
  "ComputeSampleSaw r l = - ComputeSampleRamp r l"

text \<open>\<open>CONSTRAIN(trap, INT16_MIN, INT16_MAX)\<close> clamps the doubled triangle.\<close>

definition CONSTRAIN :: "int \<Rightarrow> int \<Rightarrow> int \<Rightarrow> int" where
  "CONSTRAIN var lo hi = (if var < lo then lo else if hi < var then hi else var)"

definition ComputeSampleTrapezoid :: "resources \<Rightarrow> lfo \<Rightarrow> i16" where
  "ComputeSampleTrapezoid r l =
    (let ph = initial_phase l + divided_phase l;
         tri = triangle_of_phase ph;
         trap = (word_of_int (CONSTRAIN (sint tri * 2) (- 32768) 32767) :: i16);
         p = divided_pitch l;
         x = (if kPitch100Hz r <s p then Interpolate1022 r (wav_trap100 r) ph
              else if kPitch10Hz r <s p then
                Crossfade1022 r (wav_trap10 r) (wav_trap100 r) ph
                  (band_balance p (kPitch10Hz r) (kPitch100Hz r))
              else if kPitch1Hz r <s p then
                mix_closed_form trap (Interpolate1022 r (wav_trap10 r) ph)
                  (band_balance p (kPitch1Hz r) (kPitch10Hz r))
              else trap)
     in scale_by_level x (level l))"

text \<open>
  \<open>ComputeSampleShape\<close> overwrites its argument with \<open>SHAPE_SAW\<close> (the line marked
  \<open>TODO temp\<close>) before the switch.
\<close>

definition ComputeSampleShape :: "resources \<Rightarrow> LfoShape \<Rightarrow> lfo \<Rightarrow> i16" where
  "ComputeSampleShape r s l =
    (let s = SHAPE_SAW
     in case s of
          SHAPE_TRIANGLE \<Rightarrow> ComputeSampleTriangle r l
        | SHAPE_SAW \<Rightarrow> ComputeSampleSaw r l
        | SHAPE_RAMP \<Rightarrow> ComputeSampleRamp r l
        | SHAPE_TRAPEZOID \<Rightarrow> ComputeSampleTrapezoid r l)"

section \<open>User interface (ui.cc)\<close>

definition kLongPressDuration :: i32 where
  "kLongPressDuration = 500"

definition kVeryLongPressDuration :: i32 where
  "kVeryLongPressDuration = 2000"

definition kPotMoveThreshold :: u16 where
  "kPotMoveThreshold = push_bit (16 - 10) 1"

definition kCatchupThreshold :: u16 where
  "kCatchupThreshold = push_bit 10 1"

subsection \<open>Declarations the sources use but do not contain\<close>

datatype UiMode = UI_MODE_SPLASH | UI_MODE_ZOOM | UI_MODE_NORMAL

text \<open>
  \<open>DoEvents\<close> tests an event's type against \<open>CONTROL_SWITCH\<close> and \<open>CONTROL_POT\<close>
  and ignores any other; \<open>CONTROL_OTHER\<close> stands for the other enumerators.
\<close>

datatype ControlType = CONTROL_SWITCH | CONTROL_POT | CONTROL_OTHER

record Event =
  control_type :: ControlType
  control_id :: nat
  data :: i32

text \<open>
  Modelled from the spec: the switch and LED drivers and the header of the user
  interface are not among the sources, so the number of switches and LEDs and the
  values of the switch and feature enumerators are not given by the code. The model
  takes the four switches that \<open>OnSwitchReleased\<close> names, numbered in the order of its
  case labels, four LEDs (the spec: a lit position cycling through 4 LEDs) and four
  feature modes (one per LED, since \<open>Poll\<close> lights LED \<open>feat_mode_\<close>). The theorems
  below use of the switch enumerators only that they differ, and name
  \<open>FEAT_MODE_LAST\<close> rather than its value.
\<close>

definition kNumSwitches :: nat where
  "kNumSwitches = 4"

definition kNumLeds :: nat where
  "kNumLeds = 4"

definition SWITCH_SYNC :: nat where
  "SWITCH_SYNC = 0"

definition SWITCH_WAV1 :: nat where
  "SWITCH_WAV1 = 1"

definition SWITCH_WAV2 :: nat where
  "SWITCH_WAV2 = 2"

definition SWITCH_SELECT :: nat where
  "SWITCH_SELECT = 3"

definition FEAT_MODE_FREE :: nat where
  "FEAT_MODE_FREE = 0"

definition FEAT_MODE_LAST :: nat where
  "FEAT_MODE_LAST = 4"

text \<open>
  Modelled from the spec: the event queue is a class of the support library, not in
  the sources. The spec describes an ordered FIFO of events with an idle time, the
  time elapsed since the last activity. The model keeps the events appended by
  \<open>AddEvent\<close> in order, without a bound (the overflow policy is the library's), and
  the time of the last activity.
\<close>

record EventQueue =
  events :: "Event list"
  last_activity :: u32

definition AddEvent :: "u32 \<Rightarrow> ControlType \<Rightarrow> nat \<Rightarrow> i32 \<Rightarrow> EventQueue \<Rightarrow> EventQueue" where
  "AddEvent t ct cid d q =
    q\<lparr>events := events q @ [\<lparr>control_type = ct, control_id = cid, data = d\<rparr>],
      last_activity := t\<rparr>"

definition available :: "EventQueue \<Rightarrow> bool" where
  "available q = (events q \<noteq> [])"

definition PullEvent :: "EventQueue \<Rightarrow> Event \<times> EventQueue" where
  "PullEvent q = (hd (events q), q\<lparr>events := tl (events q)\<rparr>)"

definition Flush :: "EventQueue \<Rightarrow> EventQueue" where
  "Flush q = q\<lparr>events := []\<rparr>"

definition idle_time :: "u32 \<Rightarrow> EventQueue \<Rightarrow> u32" where
  "idle_time t q = t - last_activity q"

definition Touch :: "u32 \<Rightarrow> EventQueue \<Rightarrow> EventQueue" where
  "Touch t q = q\<lparr>last_activity := t\<rparr>"

subsection \<open>State and inputs\<close>

text \<open>
  The fields of class \<open>Ui\<close> (named without the trailing underscore), with the
  oscillator array \<open>lfo_\<close> points to and the file-level \<open>animation_counter_\<close>. Arrays
  are functions of the index; the source indexes them below 4 (below
  \<open>kNumSwitches\<close> for the two switch arrays). Pot values are 16 bits wide, the
  press time is the 32-bit millisecond clock value.
\<close>

record Ui =
  mode :: UiMode
  feat_mode :: nat
  lfos :: "nat \<Rightarrow> lfo"
  pot_value :: "nat \<Rightarrow> u16"
  pot_filtered_value :: "nat \<Rightarrow> u16"
  pot_coarse_value :: "nat \<Rightarrow> u16"
  pot_fine_value :: "nat \<Rightarrow> u16"
  catchup_state :: "nat \<Rightarrow> bool"
  press_time :: "nat \<Rightarrow> u32"
  detect_very_long_press :: "nat \<Rightarrow> bool"
  queue :: EventQueue
  leds :: "nat \<Rightarrow> bool"
  animation_counter :: i32

text \<open>
  What one call of \<open>Poll\<close> reads from its collaborators: the millisecond clock, the
  three debounced views of every switch (after \<open>switches_.Debounce()\<close>) and the ADC
  value of every pot.
\<close>

record Panel =
  milliseconds :: u32
  just_pressed :: "nat \<Rightarrow> bool"
  pressed :: "nat \<Rightarrow> bool"
  released :: "nat \<Rightarrow> bool"
  adc_pot :: "nat \<Rightarrow> u16"

subsection \<open>Init\<close>

text \<open>
  \<open>Ui::Init\<close>. The calls \<open>leds_.Init()\<close> and \<open>switches_.Init(adc_)\<close> set up the
  drivers and touch no field of the interface; the ADC is what \<open>adc_->pot\<close> reads.
\<close>

definition Ui_Init :: "(nat \<Rightarrow> u16) \<Rightarrow> (nat \<Rightarrow> lfo) \<Rightarrow> Ui \<Rightarrow> Ui" where
  "Ui_Init adc lfo_array u =
    fold (\<lambda>i v. v\<lparr>pot_value := (pot_value v)(i := adc i),
                  pot_filtered_value := (pot_filtered_value v)(i := adc i),
                  pot_coarse_value := (pot_coarse_value v)(i := adc i),
                  pot_fine_value := (pot_fine_value v)(i := push_bit 15 1),
                  catchup_state := (catchup_state v)(i := False)\<rparr>)
      [0..<4]
      (u\<lparr>mode := UI_MODE_SPLASH, lfos := lfo_array, feat_mode := FEAT_MODE_FREE\<rparr>)"

subsection \<open>Poll: switches\<close>

text \<open>The three consecutive \<open>if\<close> statements of the switch loop, for switch \<open>i\<close>.\<close>

definition switch_just_pressed :: "Panel \<Rightarrow> nat \<Rightarrow> Ui \<Rightarrow> Ui" where
  "switch_just_pressed h i u =
    (if just_pressed h i
     then u\<lparr>queue := AddEvent (milliseconds h) CONTROL_SWITCH i 0 (queue u),
           press_time := (press_time u)(i := milliseconds h),
           detect_very_long_press := (detect_very_long_press u)(i := False)\<rparr>
     else u)"

definition switch_held :: "Panel \<Rightarrow> nat \<Rightarrow> Ui \<Rightarrow> Ui" where
  "switch_held h i u =
    (if pressed h i
     then
       (let pressed_time = milliseconds h - press_time u i
        in if \<not> detect_very_long_press u i
           then
             (if kLongPressDuration <s pressed_time
              then u\<lparr>queue := AddEvent (milliseconds h) CONTROL_SWITCH i pressed_time (queue u),
                    detect_very_long_press := (detect_very_long_press u)(i := True)\<rparr>
              else u)
           else
             (if kVeryLongPressDuration <s pressed_time
              then u\<lparr>queue := AddEvent (milliseconds h) CONTROL_SWITCH i pressed_time (queue u),
                    detect_very_long_press := (detect_very_long_press u)(i := False),
                    press_time := (press_time u)(i := 0)\<rparr>
              else u))
     else u)"

definition switch_released :: "Panel \<Rightarrow> nat \<Rightarrow> Ui \<Rightarrow> Ui" where
  "switch_released h i u =
    (if released h i \<and> press_time u i \<noteq> 0 \<and> \<not> detect_very_long_press u i
     then u\<lparr>queue := AddEvent (milliseconds h) CONTROL_SWITCH i
                       (milliseconds h - press_time u i + 1) (queue u),
           press_time := (press_time u)(i := 0),
           detect_very_long_press := (detect_very_long_press u)(i := False)\<rparr>
     else u)"

definition poll_switch :: "Panel \<Rightarrow> nat \<Rightarrow> Ui \<Rightarrow> Ui" where
  "poll_switch h i u = switch_released h i (switch_held h i (switch_just_pressed h i u))"

subsection \<open>Poll: pots\<close>

definition poll_pot :: "Panel \<Rightarrow> nat \<Rightarrow> Ui \<Rightarrow> Ui" where
  "poll_pot h i u =
    (let adc_value = adc_pot h i;
         val = drop_bit 5 (31 * uint (pot_filtered_value u i) + uint adc_value);
         u1 = u\<lparr>pot_filtered_value := (pot_filtered_value u)(i := word_of_int val)\<rparr>;
         current_value = uint (pot_value u1 i)
     in if current_value + uint kPotMoveThreshold \<le> val \<or>
           val \<le> current_value - uint kPotMoveThreshold
        then u1\<lparr>queue := AddEvent (milliseconds h) CONTROL_POT i (word_of_int val) (queue u1),
               pot_value := (pot_value u1)(i := word_of_int val)\<rparr>
        else u1)"

subsection \<open>Poll: painting the interface\<close>

text \<open>
  \<open>animation_counter_\<close> is a signed 32-bit global; its increment is modelled with
  wrap-around (the overflow is undefined in the source, and 2147483648 polls away).
\<close>

definition paint :: "Ui \<Rightarrow> Ui" where
  "paint u =
    (let c = animation_counter u + 1;
         u1 = u\<lparr>animation_counter := c\<rparr>
     in case mode u of
          UI_MODE_SPLASH \<Rightarrow>
            (if c_rem (sint c) 64 = 0
             then
               (let u2 = u1\<lparr>leds :=
                           fold (\<lambda>i l. l(i := (c_rem (c_div (sint c) 64) 4 = int i)))
                             [0..<kNumLeds] (leds u1)\<rparr>
                in if 8 < c_div (sint c) 64 then u2\<lparr>mode := UI_MODE_NORMAL\<rparr> else u2)
             else u1)
        | UI_MODE_ZOOM \<Rightarrow>
            u1\<lparr>leds := (fold (\<lambda>i l. l(i := False)) [0..<kNumLeds] (leds u1))
                          (feat_mode u1 := (c AND 128 \<noteq> 0))\<rparr>
        | UI_MODE_NORMAL \<Rightarrow>
            (let flash = (c AND 64 \<noteq> 0 \<and> c AND 32 \<noteq> 0 \<and> c AND 16 \<noteq> 0)
             in u1\<lparr>leds :=
                   fold (\<lambda>i l. if catchup_state u1 i
                                then l(i := (if i = feat_mode u1 then \<not> flash else flash))
                                else l(i := (i = feat_mode u1)))
                     [0..<kNumLeds] (leds u1)\<rparr>))"

definition Poll :: "Panel \<Rightarrow> Ui \<Rightarrow> Ui" where
  "Poll h u = paint (fold (poll_pot h) [0..<4] (fold (poll_switch h) [0..<kNumSwitches] u))"

definition FlushEvents :: "Ui \<Rightarrow> Ui" where
  "FlushEvents u = u\<lparr>queue := Flush (queue u)\<rparr>"

subsection \<open>Event handlers\<close>

definition OnSwitchPressed :: "Event \<Rightarrow> Ui \<Rightarrow> Ui" where
  "OnSwitchPressed e u = u"

definition OnSwitchReleased :: "Event \<Rightarrow> Ui \<Rightarrow> Ui" where
  "OnSwitchReleased e u =
    (if control_id e = SWITCH_SYNC \<or> control_id e = SWITCH_WAV1 \<or> control_id e = SWITCH_WAV2
     then u
     else if control_id e = SWITCH_SELECT
     then
       (if kVeryLongPressDuration <s data e then u
        else if kLongPressDuration <s data e then u\<lparr>mode := UI_MODE_ZOOM\<rparr>
        else
          (case mode u of
             UI_MODE_SPLASH \<Rightarrow> u
           | UI_MODE_ZOOM \<Rightarrow>
               (fold (\<lambda>i v. if uint kCatchupThreshold
                                  < \<bar>uint (pot_value v i) - uint (pot_coarse_value v i)\<bar>
                              then v\<lparr>catchup_state := (catchup_state v)(i := True)\<rparr>
                              else v)
                  [0..<4] u)\<lparr>mode := UI_MODE_NORMAL\<rparr>
           | UI_MODE_NORMAL \<Rightarrow>
               fold (\<lambda>i v. v\<lparr>lfos := (lfos v)(i := Lfo_Init (lfos v i))\<rparr>)
                 [0..<4]
                 (u\<lparr>feat_mode := (feat_mode u + 1) mod FEAT_MODE_LAST\<rparr>)))
     else u)"

definition OnPotChanged :: "Event \<Rightarrow> Ui \<Rightarrow> Ui" where
  "OnPotChanged e u =
    (case mode u of
       UI_MODE_SPLASH \<Rightarrow> u
     | UI_MODE_ZOOM \<Rightarrow>
         u\<lparr>pot_fine_value := (pot_fine_value u)(control_id e := ucast (data e))\<rparr>
     | UI_MODE_NORMAL \<Rightarrow>
         (if \<bar>sint (data e) - uint (pot_coarse_value u (control_id e))\<bar>
               < uint kCatchupThreshold
          then u\<lparr>pot_coarse_value := (pot_coarse_value u)(control_id e := ucast (data e)),
                catchup_state := (catchup_state u)(control_id e := False)\<rparr>
          else u))"

subsection \<open>DoEvents\<close>

text \<open>
  The \<open>if\<close> chain in the loop of \<open>DoEvents\<close> selects one of the three handlers, or
  none, from the event alone; \<open>dispatch\<close> then calls it.
\<close>

datatype Handler = ON_SWITCH_PRESSED | ON_SWITCH_RELEASED | ON_POT_CHANGED

definition select_handler :: "Event \<Rightarrow> Handler option" where
  "select_handler e =
    (if control_type e = CONTROL_SWITCH
     then (if data e = 0 then Some ON_SWITCH_PRESSED else Some ON_SWITCH_RELEASED)
     else if control_type e = CONTROL_POT then Some ON_POT_CHANGED
     else None)"

definition dispatch :: "Event \<Rightarrow> Ui \<Rightarrow> Ui" where
  "dispatch e u =
    (case select_handler e of
       Some ON_SWITCH_PRESSED \<Rightarrow> OnSwitchPressed e u
     | Some ON_SWITCH_RELEASED \<Rightarrow> OnSwitchReleased e u
     | Some ON_POT_CHANGED \<Rightarrow> OnPotChanged e u
     | None \<Rightarrow> u)"

text \<open>
  The handlers never touch the queue, so the loop of \<open>DoEvents\<close>, which pulls one
  event per iteration, terminates.
\<close>

lemma queue_OnSwitchReleased: "queue (OnSwitchReleased e u) = queue u"
proof -
  have zoom: "queue (fold (\<lambda>i v. if uint kCatchupThreshold
                                  < \<bar>uint (pot_value v i) - uint (pot_coarse_value v i)\<bar>
                              then v\<lparr>catchup_state := (catchup_state v)(i := True)\<rparr>
                              else v) xs v) = queue v" for xs v
    by (induction xs arbitrary: v) auto
  have normal: "queue (fold (\<lambda>i v. v\<lparr>lfos := (lfos v)(i := Lfo_Init (lfos v i))\<rparr>) xs v)
      = queue v" for xs v
    by (induction xs arbitrary: v) auto
  show ?thesis
    by (simp add: OnSwitchReleased_def zoom normal split: UiMode.split)
qed

lemma queue_OnPotChanged: "queue (OnPotChanged e u) = queue u"
  by (simp add: OnPotChanged_def split: UiMode.split)

lemma queue_dispatch: "queue (dispatch e u) = queue u"
  by (simp add: dispatch_def OnSwitchPressed_def queue_OnSwitchReleased queue_OnPotChanged
      split: option.split Handler.split)

function DoEvents_loop :: "Ui \<Rightarrow> Ui" where
  "DoEvents_loop u =
    (if available (queue u)
     then (case PullEvent (queue u) of (e, q) \<Rightarrow> DoEvents_loop (dispatch e (u\<lparr>queue := q\<rparr>)))
     else u)"
  by pat_completeness auto
termination
  by (relation "measure (\<lambda>u. length (events (queue u)))")
     (auto simp: queue_dispatch PullEvent_def available_def)

declare DoEvents_loop.simps [simp del]

definition DoEvents :: "u32 \<Rightarrow> Ui \<Rightarrow> Ui" where
  "DoEvents t u =
    (let u1 = DoEvents_loop u
     in if 500 < idle_time t (queue u1) then u1\<lparr>queue := Touch t (queue u1)\<rparr> else u1)"

subsection \<open>Executions\<close>

text \<open>
  After \<open>Init\<close> the host calls the three entry points \<open>Poll\<close>, \<open>FlushEvents\<close> and
  \<open>DoEvents\<close> in some order; an execution is the list of these calls, each with what
  it reads from the hardware.
\<close>

datatype Call = CALL_POLL Panel | CALL_FLUSH_EVENTS | CALL_DO_EVENTS u32

fun call :: "Call \<Rightarrow> Ui \<Rightarrow> Ui" where
  "call (CALL_POLL h) u = Poll h u"
| "call CALL_FLUSH_EVENTS u = FlushEvents u"
| "call (CALL_DO_EVENTS t) u = DoEvents t u"

definition run :: "Call list \<Rightarrow> Ui \<Rightarrow> Ui" where
  "run cs u = fold call cs u"

section \<open>Concrete states and inputs\<close>

text \<open>
  Zero-filled memory, and the interface after \<open>Init\<close> on it with every pot reading
  100 and four freshly initialised oscillators. They are the inputs at which the
  theorems below are instantiated.
\<close>

definition zeroed_lfo :: lfo where
  "zeroed_lfo = \<lparr>phase = 0, divided_phase = 0, initial_phase = 0, phase_increment = 0,
                  divider = 0, divider_count = 0, level = 0, pitch = 0, divided_pitch = 0\<rparr>"

definition zeroed_ui :: Ui where
  "zeroed_ui = \<lparr>mode = UI_MODE_SPLASH, feat_mode = 0, lfos = (\<lambda>_. zeroed_lfo),
                 pot_value = (\<lambda>_. 0), pot_filtered_value = (\<lambda>_. 0),
                 pot_coarse_value = (\<lambda>_. 0), pot_fine_value = (\<lambda>_. 0),
                 catchup_state = (\<lambda>_. False), press_time = (\<lambda>_. 0),
                 detect_very_long_press = (\<lambda>_. False),
                 queue = \<lparr>events = [], last_activity = 0\<rparr>,
                 leds = (\<lambda>_. False), animation_counter = 0\<rparr>"

definition booted :: Ui where
  "booted = Ui_Init (\<lambda>_. 100) (\<lambda>_. Lfo_Init zeroed_lfo) zeroed_ui"

definition switch_event :: "nat \<Rightarrow> i32 \<Rightarrow> Event" where
  "switch_event i d = \<lparr>control_type = CONTROL_SWITCH, control_id = i, data = d\<rparr>"

definition pot_event :: "nat \<Rightarrow> i32 \<Rightarrow> Event" where
  "pot_event i d = \<lparr>control_type = CONTROL_POT, control_id = i, data = d\<rparr>"

text \<open>
  Polls at time \<open>t\<close> with every pot reading 100: one with no switch active, one with
  the given views of switch \<open>i\<close>, and the press, hold and release polls of SELECT.
\<close>

definition quiet_panel :: "u32 \<Rightarrow> Panel" where
  "quiet_panel t = \<lparr>milliseconds = t, just_pressed = (\<lambda>_. False), pressed = (\<lambda>_. False),
                     released = (\<lambda>_. False), adc_pot = (\<lambda>_. 100)\<rparr>"

definition switch_panel :: "u32 \<Rightarrow> nat \<Rightarrow> bool \<Rightarrow> bool \<Rightarrow> bool \<Rightarrow> Panel" where
  "switch_panel t i jp p r =
     \<lparr>milliseconds = t, just_pressed = (\<lambda>j. j = i \<and> jp), pressed = (\<lambda>j. j = i \<and> p),
      released = (\<lambda>j. j = i \<and> r), adc_pot = (\<lambda>_. 100)\<rparr>"

definition press_at :: "u32 \<Rightarrow> Panel" where
  "press_at t = switch_panel t SWITCH_SELECT True False False"

definition held_at :: "u32 \<Rightarrow> Panel" where
  "held_at t = switch_panel t SWITCH_SELECT False True False"

definition release_at :: "u32 \<Rightarrow> Panel" where
  "release_at t = switch_panel t SWITCH_SELECT False False True"

text \<open>An oscillator dividing by 3 whose accumulator wraps every second step.\<close>

definition divided_by_3 :: lfo where
  "divided_by_3 = (Lfo_Init zeroed_lfo)\<lparr>divider := 3, phase_increment := 2147483648\<rparr>"

text \<open>
  Example resources: an octave of 12 \<open>\<times>\<close> 128 pitch units and an increasing
  increment table. The firmware's own tables are not among the sources.
\<close>

definition example_resources :: resources where
  "example_resources =
    \<lparr>kOctave = 1536, kPitch1Hz = 0, kPitch10Hz = 5000, kPitch100Hz = 10000,
     lut_increments = (\<lambda>i. 1000001 + 7919 * of_nat i),
     wav_tri10 = (\<lambda>_. 0), wav_tri100 = (\<lambda>_. 0), wav_saw10 = (\<lambda>_. 0),
     wav_saw100 = (\<lambda>_. 0), wav_trap10 = (\<lambda>_. 0), wav_trap100 = (\<lambda>_. 0),
     Interpolate1022 = (\<lambda>_ _. 0), Crossfade1022 = (\<lambda>_ _ _ _. 0)\<rparr>"

section \<open>Notions the claims are stated in\<close>

text \<open>
  The words of claim C7: the newly smoothed value of pot \<open>i\<close> in a poll, and whether
  it differs from the last reported value by at least the move threshold (64).
\<close>

definition smoothed :: "Panel \<Rightarrow> Ui \<Rightarrow> nat \<Rightarrow> int" where
  "smoothed h u i = (31 * uint (pot_filtered_value u i) + uint (adc_pot h i)) div 32"

definition moved :: "Panel \<Rightarrow> Ui \<Rightarrow> nat \<Rightarrow> bool" where
  "moved h u i = (64 \<le> \<bar>smoothed h u i - uint (pot_value u i)\<bar>)"

definition pot_events :: "Panel \<Rightarrow> Ui \<Rightarrow> nat \<Rightarrow> Event list" where
  "pot_events h u i =
    (if moved h u i then [pot_event i (word_of_int (smoothed h u i))] else [])"

text \<open>
  The words of claim C1. A press-hold-release cycle of switch \<open>i\<close> is a sequence of
  polls: one at which the switch is just pressed, polls at which it is held, and one
  at which it is released. \<open>held_for t0 h\<close> is the time for which poll \<open>h\<close> sees the
  switch held when it was pressed at \<open>t0\<close> (the \<open>pressed_time\<close> of the source).
  \<open>poll_switch_seq\<close> runs the switch part of \<open>Poll\<close> for switch \<open>i\<close> over the
  polls.
\<close>

definition press_poll :: "Panel \<Rightarrow> nat \<Rightarrow> bool" where
  "press_poll h i = (just_pressed h i \<and> \<not> released h i)"

definition hold_poll :: "Panel \<Rightarrow> nat \<Rightarrow> bool" where
  "hold_poll h i = (\<not> just_pressed h i \<and> pressed h i \<and> \<not> released h i)"

definition release_poll :: "Panel \<Rightarrow> nat \<Rightarrow> bool" where
  "release_poll h i = (\<not> just_pressed h i \<and> \<not> pressed h i \<and> released h i)"

definition held_for :: "u32 \<Rightarrow> Panel \<Rightarrow> int" where
  "held_for t0 h = sint (milliseconds h - t0)"

definition poll_switch_seq :: "nat \<Rightarrow> Panel list \<Rightarrow> Ui \<Rightarrow> Ui" where
  "poll_switch_seq i hs u = fold (\<lambda>h. poll_switch h i) hs u"

text \<open>
  What the switch loop reads and writes for switch \<open>i\<close> (its press time, its flag and
  the events in the queue), and the loop body as a function of these alone; it is
  shown below to agree with \<open>poll_switch\<close>.
\<close>

definition switch_view :: "nat \<Rightarrow> Ui \<Rightarrow> u32 \<times> bool \<times> Event list" where
  "switch_view i u = (press_time u i, detect_very_long_press u i, events (queue u))"

definition view_step :: "nat \<Rightarrow> Panel \<Rightarrow> u32 \<times> bool \<times> Event list \<Rightarrow> u32 \<times> bool \<times> Event list" where
  "view_step i h v =
    (case v of (pt, det, evs) \<Rightarrow>
      (case (if just_pressed h i then (milliseconds h, False, evs @ [switch_event i 0])
             else (pt, det, evs)) of
        (pt, det, evs) \<Rightarrow>
          (case (if pressed h i
                 then (if \<not> det
                       then (if kLongPressDuration <s milliseconds h - pt
                             then (pt, True, evs @ [switch_event i (milliseconds h - pt)])
                             else (pt, det, evs))
                       else (if kVeryLongPressDuration <s milliseconds h - pt
                             then (0, False, evs @ [switch_event i (milliseconds h - pt)])
                             else (pt, det, evs)))
                 else (pt, det, evs)) of
            (pt, det, evs) \<Rightarrow>
              (if released h i \<and> pt \<noteq> 0 \<and> \<not> det
               then (0, False, evs @ [switch_event i (milliseconds h - pt + 1)])
               else (pt, det, evs)))))"

text \<open>
  The words of claim C9. The elapsed hold time is read off the 32-bit millisecond
  clock as the difference of two of its values, which is the time elapsed as long as
  the polls are not too far apart. \<open>spaced t hs\<close> says that the polls \<open>hs\<close>, the
  first of which follows a poll at clock value \<open>t\<close>, each come at most
  \<open>max_poll_gap\<close> milliseconds after the one before; the bound is the largest that
  keeps the hold time seen by the first poll after the long-press threshold within
  the positive range of the signed 32-bit \<open>pressed_time\<close>.
\<close>

definition max_poll_gap :: nat where
  "max_poll_gap = 2147483146"

fun spaced :: "u32 \<Rightarrow> Panel list \<Rightarrow> bool" where
  "spaced t [] = True"
| "spaced t (h # hs) = (unat (milliseconds h - t) \<le> max_poll_gap \<and> spaced (milliseconds h) hs)"

text \<open>
  The words of claim C6: the divided phase the spec's formula gives for an oscillator
  state, the number of wraps of the 32-bit phase accumulator during the first \<open>n\<close>
  steps, and whether the next step wraps it.
\<close>

definition spec_divided_phase :: "lfo \<Rightarrow> nat" where
  "spec_divided_phase l =
    unat (phase l) div divider l + (4294967295 div divider l) * divider_count l"

definition base_wraps :: "lfo \<Rightarrow> nat \<Rightarrow> nat" where
  "base_wraps l n = (unat (phase l) + n * unat (phase_increment l)) div 4294967296"

definition wraps_now :: "lfo \<Rightarrow> bool" where
  "wraps_now l = (4294967296 \<le> unat (phase l) + unat (phase_increment l))"

section \<open>Handlers of switch events\<close>

lemma select_not_others:
  "SWITCH_SELECT \<noteq> SWITCH_SYNC" "SWITCH_SELECT \<noteq> SWITCH_WAV1" "SWITCH_SELECT \<noteq> SWITCH_WAV2"
  by (simp_all add: SWITCH_SELECT_def SWITCH_SYNC_def SWITCH_WAV1_def SWITCH_WAV2_def)

text \<open>
  Claim C10. Handling a switch press event (\<open>data = 0\<close>), and handling a release
  event of a switch other than SELECT (SYNC, WAV1 or WAV2), leaves the whole state of
  the interface as it was: mode, feature mode, every pot value and catch-up flag, and
  the oscillators. The equality is on the complete state record.
\<close>

theorem switch_press_and_other_release_frame:
  assumes "control_type e = CONTROL_SWITCH"
    and "data e = 0 \<or> control_id e = SWITCH_SYNC \<or> control_id e = SWITCH_WAV1
          \<or> control_id e = SWITCH_WAV2"
  shows "dispatch e u = u \<and> OnSwitchPressed e u = u
          \<and> (data e \<noteq> 0 \<longrightarrow> OnSwitchReleased e u = u)"
  using assms
  by (auto simp: dispatch_def select_handler_def OnSwitchPressed_def OnSwitchReleased_def)

theorem switch_press_and_other_release_frame_witness:
  "dispatch (switch_event SWITCH_SELECT 0) booted = booted
   \<and> dispatch (switch_event SWITCH_WAV1 301) booted = booted
   \<and> OnSwitchReleased (switch_event SWITCH_WAV1 301) booted = booted"
  using switch_press_and_other_release_frame [of "switch_event SWITCH_SELECT 0" booted]
        switch_press_and_other_release_frame [of "switch_event SWITCH_WAV1 301" booted]
  by (simp add: switch_event_def)

lemma fold_lfo_init_upt:
  "fold (\<lambda>i v. v\<lparr>lfos := (lfos v)(i := Lfo_Init (lfos v i))\<rparr>) [0..<n] (u :: Ui)
    = u\<lparr>lfos := (\<lambda>i. if i < n then Lfo_Init (lfos u i) else lfos u i)\<rparr>"
proof -
  define F :: "nat \<Rightarrow> Ui \<Rightarrow> Ui"
    where "F = (\<lambda>i v. v\<lparr>lfos := (lfos v)(i := Lfo_Init (lfos v i))\<rparr>)"
  define g where "g = (\<lambda>n i. if i < n then Lfo_Init (lfos u i) else lfos u i)"
  have step: "F n (u\<lparr>lfos := g n\<rparr>) = u\<lparr>lfos := g (Suc n)\<rparr>" for n
  proof -
    have "(g n)(n := Lfo_Init (g n n)) = g (Suc n)"
      by (auto simp: g_def fun_eq_iff)
    then show ?thesis by (simp add: F_def)
  qed
  have "fold F [0..<n] u = u\<lparr>lfos := g n\<rparr>"
  proof (induction n)
    case 0
    show ?case by (simp add: g_def)
  next
    case (Suc n)
    have "fold F [0..<Suc n] u = F n (fold F [0..<n] u)" by simp
    also have "\<dots> = F n (u\<lparr>lfos := g n\<rparr>)" by (simp only: Suc)
    also have "\<dots> = u\<lparr>lfos := g (Suc n)\<rparr>" by (rule step)
    finally show ?case .
  qed
  then show ?thesis by (simp only: F_def g_def)
qed

text \<open>
  Claim C8. In NORMAL mode, a release event of the SELECT switch whose duration is at
  most the long-press threshold advances the feature mode to the next value modulo
  \<open>FEAT_MODE_LAST\<close>, calls \<open>Init\<close> on each of the four oscillators (phase, divided
  phase and initial phase 0, phase increment \<open>UINT32_MAX >> 8\<close>, divider 1, divider
  count 0, level \<open>UINT16_MAX\<close>), and leaves the mode NORMAL; nothing else changes.
\<close>

theorem select_short_release_in_normal:
  assumes "mode u = UI_MODE_NORMAL"
    and "control_type e = CONTROL_SWITCH" and "control_id e = SWITCH_SELECT"
    and "data e \<noteq> 0" and "data e \<le>s kLongPressDuration"
  shows "dispatch e u = u\<lparr>feat_mode := (feat_mode u + 1) mod FEAT_MODE_LAST,
                           lfos := (\<lambda>i. if i < 4 then Lfo_Init (lfos u i) else lfos u i)\<rparr>
         \<and> mode (dispatch e u) = UI_MODE_NORMAL
         \<and> feat_mode (dispatch e u) = (feat_mode u + 1) mod FEAT_MODE_LAST
         \<and> (\<forall>i<4. lfos (dispatch e u) i = Lfo_Init (lfos u i)
                \<and> phase (lfos (dispatch e u) i) = 0
                \<and> divided_phase (lfos (dispatch e u) i) = 0
                \<and> initial_phase (lfos (dispatch e u) i) = 0
                \<and> phase_increment (lfos (dispatch e u) i) = 16777215
                \<and> divider (lfos (dispatch e u) i) = 1
                \<and> divider_count (lfos (dispatch e u) i) = 0
                \<and> level (lfos (dispatch e u) i) = 65535)"
proof -
  have short: "\<not> kVeryLongPressDuration <s data e" "\<not> kLongPressDuration <s data e"
    using assms(5)
    by (auto simp: kVeryLongPressDuration_def kLongPressDuration_def word_sless_alt word_sle_eq)
  have d: "dispatch e u = OnSwitchReleased e u"
    using assms by (simp add: dispatch_def select_handler_def)
  have "OnSwitchReleased e u = u\<lparr>feat_mode := (feat_mode u + 1) mod FEAT_MODE_LAST,
                           lfos := (\<lambda>i. if i < 4 then Lfo_Init (lfos u i) else lfos u i)\<rparr>"
    using assms(1,3) short
    by (simp add: OnSwitchReleased_def select_not_others fold_lfo_init_upt cong: if_cong)
  with d have eq: "dispatch e u = u\<lparr>feat_mode := (feat_mode u + 1) mod FEAT_MODE_LAST,
                           lfos := (\<lambda>i. if i < 4 then Lfo_Init (lfos u i) else lfos u i)\<rparr>"
    by simp
  show ?thesis
    unfolding eq using assms(1)
    by (simp add: Lfo_Init_def UINT32_MAX_def UINT16_MAX_def)
qed

theorem select_short_release_in_normal_witness:
  "mode (dispatch (switch_event SWITCH_SELECT 301) (booted\<lparr>mode := UI_MODE_NORMAL, feat_mode := 3\<rparr>))
     = UI_MODE_NORMAL
   \<and> feat_mode (dispatch (switch_event SWITCH_SELECT 301)
        (booted\<lparr>mode := UI_MODE_NORMAL, feat_mode := 3\<rparr>)) = 0
   \<and> phase_increment (lfos (dispatch (switch_event SWITCH_SELECT 301)
        (booted\<lparr>mode := UI_MODE_NORMAL, feat_mode := 3\<rparr>)) 2) = 16777215"
  using select_short_release_in_normal
          [of "booted\<lparr>mode := UI_MODE_NORMAL, feat_mode := 3\<rparr>" "switch_event SWITCH_SELECT 301"]
  by (simp add: switch_event_def kLongPressDuration_def FEAT_MODE_LAST_def Lfo_Init_def
        UINT32_MAX_def)

lemma upt4: "[0..<4] = [0, 1, 2, 3]"
  by (simp add: upt_rec)

lemma booted_eq:
  "booted = zeroed_ui\<lparr>lfos := (\<lambda>_. Lfo_Init zeroed_lfo),
              pot_value := (\<lambda>i. if i < 4 then 100 else 0),
              pot_filtered_value := (\<lambda>i. if i < 4 then 100 else 0),
              pot_coarse_value := (\<lambda>i. if i < 4 then 100 else 0),
              pot_fine_value := (\<lambda>i. if i < 4 then 32768 else 0)\<rparr>"
  unfolding booted_def Ui_Init_def upt4 zeroed_ui_def FEAT_MODE_FREE_def
  by (auto simp: fun_eq_iff)

section \<open>Signed reading of small unsigned words\<close>

lemma sint_eq_uint_32:
  fixes w :: "32 word"
  assumes "uint w < 2147483648"
  shows "sint w = uint w"
proof -
  have "(- (2 ^ 31) :: int) \<le> 0" by simp
  also have "(0 :: int) \<le> uint w" by simp
  finally have "- (2 ^ 31) \<le> uint w" .
  moreover have "uint w < 2 ^ 31" using assms by simp
  ultimately have "signed_take_bit 31 (uint w) = uint w"
    by (rule signed_take_bit_int_eq_self)
  then show ?thesis by (simp add: sint_uint)
qed

lemma sint_succ_small:
  fixes d :: "32 word"
  assumes "d < 2147483647"
  shows "sint (d + 1) = int (unat d) + 1" and "d + 1 \<noteq> 0"
proof -
  have lt: "unat d < 2147483647"
    using assms by (simp add: word_less_nat_alt)
  then have "unat d + unat (1 :: 32 word) < 2 ^ LENGTH(32)" by simp
  then have "unat (d + 1) = unat d + unat (1 :: 32 word)" by (simp only: unat_add_lem)
  then have un: "unat (d + 1) = unat d + 1" by (simp only: unat_1)
  have u: "uint (d + 1) = int (unat d) + 1"
    unfolding uint_nat un by simp
  have "int (unat d) + 1 < 2147483648" using lt by linarith
  then have "uint (d + 1) < 2147483648" unfolding u .
  then have "sint (d + 1) = uint (d + 1)" by (rule sint_eq_uint_32)
  then show s: "sint (d + 1) = int (unat d) + 1" unfolding u .
  show "d + 1 \<noteq> 0"
  proof
    assume "d + 1 = 0"
    then have "sint (d + 1) = 0" by simp
    with s show False by linarith
  qed
qed

section \<open>The waveform dispatcher\<close>

lemma not_sless_int16_min: "\<not> (k :: i16) <s 32768"
proof -
  have "sint (32768 :: i16) = - 32768" by simp
  moreover have "- (2 ^ (LENGTH(16) - 1)) \<le> sint k" by (rule sint_ge)
  ultimately show ?thesis by (simp add: word_sless_alt)
qed

lemma triangle_of_phase_0: "triangle_of_phase 0 = 32768"
  by (simp add: triangle_of_phase_def)

lemma scale_full:
  "sint (scale_by_level 32768 65535) = - 32768"
  "sint (scale_by_level 32858 65535) = - 32678"
  by (simp_all add: scale_by_level_def)

text \<open>
  Claim C3 says that \<open>ComputeSampleShape(s)\<close> returns the sample of the waveform
  computation selected by \<open>s\<close>. The code overwrites \<open>s\<close> with \<open>SHAPE_SAW\<close> first, so
  for every selector, every resource set and every oscillator the result is the one of
  \<open>ComputeSampleSaw\<close>. On an oscillator fresh from \<open>Init\<close> whose divided pitch is
  the least 16-bit value (at or below each band threshold, whatever the thresholds
  are) every selector yields 32678, while the triangle, ramp and trapezoid
  computations yield -32768, -32678 and -32768.
\<close>

theorem ComputeSampleShape_always_saw:
  "ComputeSampleShape r s l = ComputeSampleSaw r l
   \<and> sint (ComputeSampleShape r s ((Lfo_Init l)\<lparr>divided_pitch := - 32768\<rparr>)) = 32678
   \<and> sint (ComputeSampleTriangle r ((Lfo_Init l)\<lparr>divided_pitch := - 32768\<rparr>)) = - 32768
   \<and> sint (ComputeSampleRamp r ((Lfo_Init l)\<lparr>divided_pitch := - 32768\<rparr>)) = - 32678
   \<and> sint (ComputeSampleTrapezoid r ((Lfo_Init l)\<lparr>divided_pitch := - 32768\<rparr>)) = - 32768"
proof -
  let ?l = "(Lfo_Init l)\<lparr>divided_pitch := - 32768\<rparr>"
  have n: "(4294934618 :: i16) = 32858" by simp
  have n2: "(- 32768 :: i16) = 32768" by simp
  have f: "initial_phase ?l + divided_phase ?l = 0" "level ?l = 65535" "divided_pitch ?l = 32768"
    by (simp_all add: Lfo_Init_def UINT16_MAX_def)
  have shape: "ComputeSampleShape r s l' = ComputeSampleSaw r l'" for l'
    by (simp add: ComputeSampleShape_def)
  have ramp: "ComputeSampleRamp r ?l = scale_by_level 32858 65535"
    unfolding ComputeSampleRamp_def Let_def f by (simp add: not_sless_int16_min n)
  have tri: "ComputeSampleTriangle r ?l = scale_by_level 32768 65535"
    unfolding ComputeSampleTriangle_def Let_def f
    by (simp add: not_sless_int16_min triangle_of_phase_0)
  have trap: "ComputeSampleTrapezoid r ?l = scale_by_level 32768 65535"
    unfolding ComputeSampleTrapezoid_def Let_def f
    by (simp add: not_sless_int16_min triangle_of_phase_0 CONSTRAIN_def n2)
  have saw: "sint (ComputeSampleSaw r ?l) = 32678"
    unfolding ComputeSampleSaw_def ramp by (simp add: scale_by_level_def)
  show ?thesis
    unfolding shape saw tri trap ramp scale_full by simp
qed

section \<open>Pot motion events\<close>

lemma smoothed_range: "0 \<le> smoothed h u i \<and> smoothed h u i < 65536"
proof -
  have "uint (pot_filtered_value u i) < 65536" "uint (adc_pot h i) < 65536"
    using uint_lt2p[of "pot_filtered_value u i"] uint_lt2p[of "adc_pot h i"] by simp_all
  moreover have "0 \<le> uint (pot_filtered_value u i)" "0 \<le> uint (adc_pot h i)" by simp_all
  ultimately show ?thesis unfolding smoothed_def by linarith
qed

lemma poll_pot_closed:
  "poll_pot h i u =
    (if moved h u i
     then u\<lparr>pot_filtered_value := (pot_filtered_value u)(i := word_of_int (smoothed h u i)),
            queue := AddEvent (milliseconds h) CONTROL_POT i (word_of_int (smoothed h u i)) (queue u),
            pot_value := (pot_value u)(i := word_of_int (smoothed h u i))\<rparr>
     else u\<lparr>pot_filtered_value := (pot_filtered_value u)(i := word_of_int (smoothed h u i))\<rparr>)"
proof -
  have d: "drop_bit 5 (31 * uint (pot_filtered_value u i) + uint (adc_pot h i)) = smoothed h u i"
    by (simp add: smoothed_def drop_bit_eq_div)
  have t: "uint kPotMoveThreshold = 64" by (simp add: kPotMoveThreshold_def)
  have m: "moved h u i \<longleftrightarrow> uint (pot_value u i) + 64 \<le> smoothed h u i
            \<or> smoothed h u i \<le> uint (pot_value u i) - 64"
    unfolding moved_def by linarith
  show ?thesis
    unfolding poll_pot_def Let_def d t by (simp add: m)
qed

lemma poll_pot_fields:
  "pot_value (poll_pot h j u) =
     (if moved h u j then (pot_value u)(j := word_of_int (smoothed h u j)) else pot_value u)"
  "pot_filtered_value (poll_pot h j u) = (pot_filtered_value u)(j := word_of_int (smoothed h u j))"
  "events (queue (poll_pot h j u)) = events (queue u) @ pot_events h u j"
  by (simp_all add: poll_pot_closed AddEvent_def pot_event_def pot_events_def)

lemma poll_pot_other:
  assumes "i \<noteq> j"
  shows "smoothed h (poll_pot h j u) i = smoothed h u i"
    and "moved h (poll_pot h j u) i = moved h u i"
    and "pot_events h (poll_pot h j u) i = pot_events h u i"
proof -
  show a: "smoothed h (poll_pot h j u) i = smoothed h u i"
    using assms by (simp add: smoothed_def poll_pot_fields)
  show b: "moved h (poll_pot h j u) i = moved h u i"
    using assms by (simp add: moved_def a poll_pot_fields)
  show "pot_events h (poll_pot h j u) i = pot_events h u i"
    by (simp add: pot_events_def a b)
qed

lemma fold_poll_pot:
  assumes "distinct js"
  shows "events (queue (fold (poll_pot h) js u)) = events (queue u) @ concat (map (pot_events h u) js)
    \<and> (\<forall>i. pot_value (fold (poll_pot h) js u) i =
          (if i \<in> set js \<and> moved h u i then word_of_int (smoothed h u i) else pot_value u i))
    \<and> (\<forall>i. pot_filtered_value (fold (poll_pot h) js u) i =
          (if i \<in> set js then word_of_int (smoothed h u i) else pot_filtered_value u i))"
  using assms
proof (induction js arbitrary: u)
  case Nil
  show ?case by simp
next
  case (Cons j js)
  then have nj: "j \<notin> set js" and d: "distinct js" by simp_all
  note ih = Cons.IH[OF d, of "poll_pot h j u"]
  have same: "map (pot_events h (poll_pot h j u)) js = map (pot_events h u) js"
    using nj by (intro map_cong refl poll_pot_other(3)) auto
  have ev: "events (queue (fold (poll_pot h) (j # js) u))
      = events (queue u) @ concat (map (pot_events h u) (j # js))"
    using ih same by (simp add: poll_pot_fields)
  have pv: "pot_value (fold (poll_pot h) (j # js) u) i =
          (if i \<in> set (j # js) \<and> moved h u i then word_of_int (smoothed h u i) else pot_value u i)" for i
  proof (cases "i = j")
    case True
    with nj ih show ?thesis by (simp add: poll_pot_fields)
  next
    case False
    with ih show ?thesis by (simp add: poll_pot_fields poll_pot_other)
  qed
  have pf: "pot_filtered_value (fold (poll_pot h) (j # js) u) i =
          (if i \<in> set (j # js) then word_of_int (smoothed h u i) else pot_filtered_value u i)" for i
  proof (cases "i = j")
    case True
    with nj ih show ?thesis by (simp add: poll_pot_fields)
  next
    case False
    with ih show ?thesis by (simp add: poll_pot_fields poll_pot_other)
  qed
  from ev pv pf show ?case by blast
qed

lemma poll_switch_frame:
  "pot_value (poll_switch h i u) = pot_value u"
  "pot_filtered_value (poll_switch h i u) = pot_filtered_value u"
  "\<exists>sw. events (queue (poll_switch h i u)) = events (queue u) @ sw
        \<and> (\<forall>e\<in>set sw. control_type e = CONTROL_SWITCH)"
  by (auto simp: poll_switch_def switch_released_def switch_held_def switch_just_pressed_def
      Let_def AddEvent_def)

lemma fold_poll_switch_frame:
  "pot_value (fold (poll_switch h) is u) = pot_value u
   \<and> pot_filtered_value (fold (poll_switch h) is u) = pot_filtered_value u
   \<and> (\<exists>sw. events (queue (fold (poll_switch h) is u)) = events (queue u) @ sw
        \<and> (\<forall>e\<in>set sw. control_type e = CONTROL_SWITCH))"
proof (induction "is" arbitrary: u)
  case Nil
  show ?case by simp
next
  case (Cons i "is")
  obtain sw1 where 1: "events (queue (poll_switch h i u)) = events (queue u) @ sw1"
      "\<forall>e\<in>set sw1. control_type e = CONTROL_SWITCH"
    using poll_switch_frame(3)[of h i u] by blast
  obtain sw2 where 2: "events (queue (fold (poll_switch h) is (poll_switch h i u)))
        = events (queue (poll_switch h i u)) @ sw2"
      "\<forall>e\<in>set sw2. control_type e = CONTROL_SWITCH"
    using Cons[of "poll_switch h i u"] by blast
  have "events (queue (fold (poll_switch h) (i # is) u)) = events (queue u) @ (sw1 @ sw2)
        \<and> (\<forall>e\<in>set (sw1 @ sw2). control_type e = CONTROL_SWITCH)"
    using 1 2 by auto
  then have "\<exists>sw. events (queue (fold (poll_switch h) (i # is) u)) = events (queue u) @ sw
        \<and> (\<forall>e\<in>set sw. control_type e = CONTROL_SWITCH)" by blast
  moreover have "pot_value (fold (poll_switch h) (i # is) u) = pot_value u"
    "pot_filtered_value (fold (poll_switch h) (i # is) u) = pot_filtered_value u"
    using Cons[of "poll_switch h i u"] by (simp_all add: poll_switch_frame)
  ultimately show ?case by blast
qed

lemma paint_frame:
  "queue (paint u) = queue u" "pot_value (paint u) = pot_value u"
  "pot_filtered_value (paint u) = pot_filtered_value u"
  by (simp_all add: paint_def Let_def split: UiMode.split)

lemma moved_cong:
  assumes "pot_value u' = pot_value u" and "pot_filtered_value u' = pot_filtered_value u"
  shows "smoothed h u' = smoothed h u" "moved h u' = moved h u" "pot_events h u' = pot_events h u"
  using assms by (simp_all add: fun_eq_iff smoothed_def moved_def pot_events_def)

text \<open>
  Claim C7. In a poll cycle, for each of the four pots, a pot motion event carrying
  the smoothed value is emitted, and the last reported value \<open>pot_value\<close> set to the
  smoothed value, exactly when the smoothed value differs from the last reported value
  by at least the move threshold; otherwise no event for the pot is emitted and
  \<open>pot_value\<close> keeps its value. The events of pot \<open>i\<close> are read off the events the
  whole of \<open>Poll\<close> appends to the queue.
\<close>

theorem pot_event_iff_moved:
  assumes "i < 4"
  shows "uint (word_of_int (smoothed h u i) :: u16) = smoothed h u i
   \<and> pot_filtered_value (Poll h u) i = word_of_int (smoothed h u i)
   \<and> pot_value (Poll h u) i
       = (if moved h u i then word_of_int (smoothed h u i) else pot_value u i)
   \<and> filter (\<lambda>e. control_type e = CONTROL_POT \<and> control_id e = i)
        (drop (length (events (queue u))) (events (queue (Poll h u))))
       = (if moved h u i then [pot_event i (word_of_int (smoothed h u i))] else [])
   \<and> (moved h u i = (uint kPotMoveThreshold \<le> \<bar>smoothed h u i - uint (pot_value u i)\<bar>))"
proof -
  let ?us = "fold (poll_switch h) [0..<kNumSwitches] u"
  let ?up = "fold (poll_pot h) [0..<4] ?us"
  note fs = fold_poll_switch_frame[of h "[0..<kNumSwitches]" u]
  from fs obtain sw where sw: "events (queue ?us) = events (queue u) @ sw"
      "\<forall>e\<in>set sw. control_type e = CONTROL_SWITCH" by blast
  from fs have same: "pot_value ?us = pot_value u" "pot_filtered_value ?us = pot_filtered_value u"
    by blast+
  note mc = moved_cong[OF same, of h]
  have "distinct [0..<4]" by simp
  note fp = fold_poll_pot[OF this, of h ?us, unfolded mc same]
  have in4: "i \<in> set [0..<4]" using assms by simp
  have r: "uint (word_of_int (smoothed h u i) :: u16) = smoothed h u i"
    using smoothed_range[of h u i] by (simp add: uint_word_of_int)
  have pf: "pot_filtered_value (Poll h u) i = word_of_int (smoothed h u i)"
    using fp in4 by (simp add: Poll_def paint_frame)
  have pv: "pot_value (Poll h u) i
       = (if moved h u i then word_of_int (smoothed h u i) else pot_value u i)"
    using fp in4 by (simp add: Poll_def paint_frame)
  have ev: "events (queue (Poll h u))
      = events (queue u) @ sw @ concat (map (pot_events h u) [0..<4])"
    using fp sw(1) by (simp add: Poll_def paint_frame)
  have fsw: "filter (\<lambda>e. control_type e = CONTROL_POT \<and> control_id e = i) sw = []"
    using sw(2) by (auto simp: filter_empty_conv)
  have fpe: "filter (\<lambda>e. control_type e = CONTROL_POT \<and> control_id e = i) (pot_events h u j)
      = (if i = j then pot_events h u j else [])" for j
    by (auto simp: pot_events_def pot_event_def)
  have fc: "distinct js \<Longrightarrow>
      filter (\<lambda>e. control_type e = CONTROL_POT \<and> control_id e = i)
        (concat (map (pot_events h u) js)) = (if i \<in> set js then pot_events h u i else [])" for js
    by (induction js) (auto simp: fpe)
  have fl: "filter (\<lambda>e. control_type e = CONTROL_POT \<and> control_id e = i)
        (drop (length (events (queue u))) (events (queue (Poll h u))))
       = pot_events h u i"
    unfolding ev using in4 by (simp add: fsw fc)
  have t: "uint kPotMoveThreshold = 64" by (simp add: kPotMoveThreshold_def)
  from r pf pv fl show ?thesis
    unfolding t by (simp add: pot_events_def moved_def)
qed

theorem pot_event_iff_moved_witness:
  "pot_value (Poll ((quiet_panel 5)\<lparr>adc_pot := (\<lambda>j. if j = 1 then 40000 else 100)\<rparr>) booted) 1 = 1346
   \<and> filter (\<lambda>e. control_type e = CONTROL_POT \<and> control_id e = 1)
        (drop (length (events (queue booted)))
          (events (queue (Poll ((quiet_panel 5)\<lparr>adc_pot := (\<lambda>j. if j = 1 then 40000 else 100)\<rparr>) booted))))
       = [pot_event 1 1346]
   \<and> pot_value (Poll (quiet_panel 5) booted) 1 = 100"
  using pot_event_iff_moved [of 1 "(quiet_panel 5)\<lparr>adc_pot := (\<lambda>j. if j = 1 then 40000 else 100)\<rparr>" booted]
        pot_event_iff_moved [of 1 "quiet_panel 5" booted]
  by (simp add: smoothed_def moved_def booted_eq zeroed_ui_def quiet_panel_def)

section \<open>Switch gestures\<close>

lemma poll_switch_seq_simps:
  "poll_switch_seq i [] u = u"
  "poll_switch_seq i (h # hs) u = poll_switch_seq i hs (poll_switch h i u)"
  "poll_switch_seq i (hs @ hs') u = poll_switch_seq i hs' (poll_switch_seq i hs u)"
  by (simp_all add: poll_switch_seq_def)

lemma sless_500: "(kLongPressDuration <s d) = (500 < sint d)"
  and sless_2000: "(kVeryLongPressDuration <s d) = (2000 < sint d)"
  by (simp_all add: kLongPressDuration_def kVeryLongPressDuration_def word_sless_alt)

lemma poll_switch_press:
  assumes "press_poll h i"
  shows "press_time (poll_switch h i u) i = milliseconds h"
    and "\<not> detect_very_long_press (poll_switch h i u) i"
    and "events (queue (poll_switch h i u)) = events (queue u) @ [switch_event i 0]"
  using assms
  by (simp_all add: press_poll_def poll_switch_def switch_just_pressed_def switch_held_def
      switch_released_def Let_def AddEvent_def switch_event_def sless_500)

lemma poll_switch_hold:
  assumes "hold_poll h i"
  shows "press_time (poll_switch h i u) i =
          (if detect_very_long_press u i \<and> 2000 < held_for (press_time u i) h
           then 0 else press_time u i)"
    and "detect_very_long_press (poll_switch h i u) i =
          (if detect_very_long_press u i then \<not> 2000 < held_for (press_time u i) h
           else 500 < held_for (press_time u i) h)"
    and "events (queue (poll_switch h i u)) = events (queue u) @
          (if (if detect_very_long_press u i then 2000 < held_for (press_time u i) h
               else 500 < held_for (press_time u i) h)
           then [switch_event i (milliseconds h - press_time u i)] else [])"
  using assms
  by (simp_all add: hold_poll_def poll_switch_def switch_just_pressed_def switch_held_def
      switch_released_def Let_def AddEvent_def switch_event_def sless_500 sless_2000 held_for_def)

lemma poll_switch_release:
  assumes "release_poll h i"
  shows "events (queue (poll_switch h i u)) = events (queue u) @
          (if press_time u i \<noteq> 0 \<and> \<not> detect_very_long_press u i
           then [switch_event i (milliseconds h - press_time u i + 1)] else [])"
  using assms
  by (simp_all add: release_poll_def poll_switch_def switch_just_pressed_def switch_held_def
      switch_released_def Let_def AddEvent_def switch_event_def)

lemma holds_below_long:
  assumes "\<forall>h\<in>set hs. hold_poll h i \<and> held_for (press_time u i) h \<le> 500"
    and "\<not> detect_very_long_press u i"
  shows "press_time (poll_switch_seq i hs u) i = press_time u i
    \<and> \<not> detect_very_long_press (poll_switch_seq i hs u) i
    \<and> events (queue (poll_switch_seq i hs u)) = events (queue u)"
  using assms
proof (induction hs arbitrary: u)
  case Nil
  then show ?case by (simp add: poll_switch_seq_simps)
next
  case (Cons h hs)
  then have h: "hold_poll h i" "\<not> 500 < held_for (press_time u i) h" by auto
  have 1: "press_time (poll_switch h i u) i = press_time u i"
    "\<not> detect_very_long_press (poll_switch h i u) i"
    "events (queue (poll_switch h i u)) = events (queue u)"
    using h Cons.prems(2) by (simp_all add: poll_switch_hold)
  have "\<forall>k\<in>set hs. hold_poll k i \<and> held_for (press_time (poll_switch h i u) i) k \<le> 500"
    using Cons.prems(1) 1 by simp
  from Cons.IH[OF this 1(2)] 1 show ?case by (simp add: poll_switch_seq_simps)
qed

lemma holds_below_very_long:
  assumes "\<forall>h\<in>set hs. hold_poll h i \<and> held_for (press_time u i) h \<le> 2000"
    and "detect_very_long_press u i"
  shows "press_time (poll_switch_seq i hs u) i = press_time u i
    \<and> detect_very_long_press (poll_switch_seq i hs u) i
    \<and> events (queue (poll_switch_seq i hs u)) = events (queue u)"
  using assms
proof (induction hs arbitrary: u)
  case Nil
  then show ?case by (simp add: poll_switch_seq_simps)
next
  case (Cons h hs)
  then have h: "hold_poll h i" "\<not> 2000 < held_for (press_time u i) h" by auto
  have 1: "press_time (poll_switch h i u) i = press_time u i"
    "detect_very_long_press (poll_switch h i u) i"
    "events (queue (poll_switch h i u)) = events (queue u)"
    using h Cons.prems(2) by (simp_all add: poll_switch_hold)
  have "\<forall>k\<in>set hs. hold_poll k i \<and> held_for (press_time (poll_switch h i u) i) k \<le> 2000"
    using Cons.prems(1) 1 by simp
  from Cons.IH[OF this 1(2)] 1 show ?case by (simp add: poll_switch_seq_simps)
qed

lemma holds_after_very_long:
  assumes "\<forall>h\<in>set hs. hold_poll h i" and "press_time u i = 0"
  shows "press_time (poll_switch_seq i hs u) i = 0"
  using assms
proof (induction hs arbitrary: u)
  case Nil
  then show ?case by (simp add: poll_switch_seq_simps)
next
  case (Cons h hs)
  then have "press_time (poll_switch h i u) i = 0" by (simp add: poll_switch_hold)
  with Cons show ?case by (simp add: poll_switch_seq_simps)
qed

lemma gesture_until_long:
  assumes "press_poll hp i"
    and "\<forall>h\<in>set early. hold_poll h i \<and> held_for (milliseconds hp) h \<le> 500"
  shows "press_time (poll_switch_seq i (hp # early) u) i = milliseconds hp"
    and "\<not> detect_very_long_press (poll_switch_seq i (hp # early) u) i"
    and "events (queue (poll_switch_seq i (hp # early) u)) = events (queue u) @ [switch_event i 0]"
proof -
  let ?u1 = "poll_switch hp i u"
  note p = poll_switch_press[OF assms(1), of u]
  have "\<forall>h\<in>set early. hold_poll h i \<and> held_for (press_time ?u1 i) h \<le> 500"
    using assms(2) p(1) by simp
  note b = holds_below_long[OF this p(2)]
  show "press_time (poll_switch_seq i (hp # early) u) i = milliseconds hp"
    using b p by (simp add: poll_switch_seq_simps)
  show "\<not> detect_very_long_press (poll_switch_seq i (hp # early) u) i"
    using b by (simp add: poll_switch_seq_simps)
  show "events (queue (poll_switch_seq i (hp # early) u)) = events (queue u) @ [switch_event i 0]"
    using b p by (simp add: poll_switch_seq_simps)
qed

lemma gesture_until_very_long:
  assumes "press_poll hp i"
    and "\<forall>h\<in>set early. hold_poll h i \<and> held_for (milliseconds hp) h \<le> 500"
    and "hold_poll hl i" and "500 < held_for (milliseconds hp) hl"
    and "\<forall>h\<in>set mid. hold_poll h i \<and> held_for (milliseconds hp) h \<le> 2000"
  shows "press_time (poll_switch_seq i (hp # early @ [hl] @ mid) u) i = milliseconds hp"
    and "detect_very_long_press (poll_switch_seq i (hp # early @ [hl] @ mid) u) i"
    and "events (queue (poll_switch_seq i (hp # early @ [hl] @ mid) u))
          = events (queue u) @ [switch_event i 0, switch_event i (milliseconds hl - milliseconds hp)]"
proof -
  let ?u2 = "poll_switch_seq i (hp # early) u"
  let ?u3 = "poll_switch hl i ?u2"
  note a = gesture_until_long[OF assms(1,2), of u]
  have 3: "press_time ?u3 i = milliseconds hp" "detect_very_long_press ?u3 i"
    "events (queue ?u3)
      = events (queue u) @ [switch_event i 0, switch_event i (milliseconds hl - milliseconds hp)]"
    using a assms(4) by (simp_all add: poll_switch_hold[OF assms(3)])
  have "\<forall>h\<in>set mid. hold_poll h i \<and> held_for (press_time ?u3 i) h \<le> 2000"
    using assms(5) 3(1) by simp
  note b = holds_below_very_long[OF this 3(2)]
  have seq: "poll_switch_seq i (hp # early @ [hl] @ mid) u = poll_switch_seq i mid ?u3"
    by (simp add: poll_switch_seq_def)
  show "press_time (poll_switch_seq i (hp # early @ [hl] @ mid) u) i = milliseconds hp"
    unfolding seq using b 3 by simp
  show "detect_very_long_press (poll_switch_seq i (hp # early @ [hl] @ mid) u) i"
    unfolding seq using b by simp
  show "events (queue (poll_switch_seq i (hp # early @ [hl] @ mid) u))
          = events (queue u) @ [switch_event i 0, switch_event i (milliseconds hl - milliseconds hp)]"
    unfolding seq using b 3 by simp
qed

text \<open>
  Claim C1, as the code has it. For a press-hold-release cycle whose press is polled
  at a non-zero clock value:
  \<^item> if no poll sees the switch held for more than 500 ms (so whenever the hold lasts at
    most 500 ms), the events are exactly press and release, the release carrying the
    hold time plus 1;
  \<^item> if a poll sees it held for more than 500 ms and no later poll for more than
    2000 ms, the events are exactly press and long-press: the release poll emits no
    event, since the long-press has armed \<open>detect_very_long_press\<close>;
  \<^item> if a later poll sees it held for more than 2000 ms, the events up to that poll are
    exactly press, long-press and very-long-press, and the release poll emits no event.
  The statement leaves open what the polls between the very-long-press and the release
  emit.
\<close>

theorem switch_gesture_events:
  assumes "press_poll hp i" and "milliseconds hp \<noteq> 0" and "release_poll hr i"
  shows
    "((\<forall>h\<in>set hs. hold_poll h i \<and> held_for (milliseconds hp) h \<le> 500) \<longrightarrow>
        events (queue (poll_switch_seq i (hp # hs @ [hr]) u))
          = events (queue u) @
            [switch_event i 0, switch_event i (milliseconds hr - milliseconds hp + 1)])
   \<and> ((\<forall>h\<in>set early. hold_poll h i \<and> held_for (milliseconds hp) h \<le> 500)
        \<and> hold_poll hl i \<and> 500 < held_for (milliseconds hp) hl
        \<and> (\<forall>h\<in>set mid. hold_poll h i \<and> held_for (milliseconds hp) h \<le> 2000) \<longrightarrow>
        events (queue (poll_switch_seq i (hp # early @ [hl] @ mid @ [hr]) u))
          = events (queue u) @
            [switch_event i 0, switch_event i (milliseconds hl - milliseconds hp)])
   \<and> ((\<forall>h\<in>set early. hold_poll h i \<and> held_for (milliseconds hp) h \<le> 500)
        \<and> hold_poll hl i \<and> 500 < held_for (milliseconds hp) hl
        \<and> (\<forall>h\<in>set mid. hold_poll h i \<and> held_for (milliseconds hp) h \<le> 2000)
        \<and> hold_poll hv i \<and> 2000 < held_for (milliseconds hp) hv
        \<and> (\<forall>h\<in>set late. hold_poll h i) \<longrightarrow>
        events (queue (poll_switch_seq i (hp # early @ [hl] @ mid @ [hv]) u))
          = events (queue u) @
            [switch_event i 0, switch_event i (milliseconds hl - milliseconds hp),
             switch_event i (milliseconds hv - milliseconds hp)]
        \<and> events (queue (poll_switch_seq i (hp # early @ [hl] @ mid @ [hv] @ late @ [hr]) u))
          = events (queue (poll_switch_seq i (hp # early @ [hl] @ mid @ [hv] @ late) u)))"
proof (intro conjI impI)
  assume "\<forall>h\<in>set hs. hold_poll h i \<and> held_for (milliseconds hp) h \<le> 500"
  note a = gesture_until_long[OF assms(1) this, of u]
  have "poll_switch_seq i (hp # hs @ [hr]) u = poll_switch hr i (poll_switch_seq i (hp # hs) u)"
    by (simp add: poll_switch_seq_def)
  then show "events (queue (poll_switch_seq i (hp # hs @ [hr]) u))
          = events (queue u) @
            [switch_event i 0, switch_event i (milliseconds hr - milliseconds hp + 1)]"
    using a assms(2) by (simp add: poll_switch_release[OF assms(3)])
next
  assume "(\<forall>h\<in>set early. hold_poll h i \<and> held_for (milliseconds hp) h \<le> 500)
        \<and> hold_poll hl i \<and> 500 < held_for (milliseconds hp) hl
        \<and> (\<forall>h\<in>set mid. hold_poll h i \<and> held_for (milliseconds hp) h \<le> 2000)"
  then have h: "\<forall>h\<in>set early. hold_poll h i \<and> held_for (milliseconds hp) h \<le> 500"
    "hold_poll hl i" "500 < held_for (milliseconds hp) hl"
    "\<forall>h\<in>set mid. hold_poll h i \<and> held_for (milliseconds hp) h \<le> 2000" by blast+
  note b = gesture_until_very_long[OF assms(1) h, of u]
  have "poll_switch_seq i (hp # early @ [hl] @ mid @ [hr]) u
      = poll_switch hr i (poll_switch_seq i (hp # early @ [hl] @ mid) u)"
    by (simp add: poll_switch_seq_def)
  then show "events (queue (poll_switch_seq i (hp # early @ [hl] @ mid @ [hr]) u))
          = events (queue u) @
            [switch_event i 0, switch_event i (milliseconds hl - milliseconds hp)]"
    using b by (simp add: poll_switch_release[OF assms(3)])
next
  assume c: "(\<forall>h\<in>set early. hold_poll h i \<and> held_for (milliseconds hp) h \<le> 500)
        \<and> hold_poll hl i \<and> 500 < held_for (milliseconds hp) hl
        \<and> (\<forall>h\<in>set mid. hold_poll h i \<and> held_for (milliseconds hp) h \<le> 2000)
        \<and> hold_poll hv i \<and> 2000 < held_for (milliseconds hp) hv
        \<and> (\<forall>h\<in>set late. hold_poll h i)"
  then have h: "\<forall>h\<in>set early. hold_poll h i \<and> held_for (milliseconds hp) h \<le> 500"
    "hold_poll hl i" "500 < held_for (milliseconds hp) hl"
    "\<forall>h\<in>set mid. hold_poll h i \<and> held_for (milliseconds hp) h \<le> 2000" by blast+
  from c have hv: "hold_poll hv i" "2000 < held_for (milliseconds hp) hv"
    and h3: "\<forall>h\<in>set late. hold_poll h i" by blast+
  let ?u4 = "poll_switch_seq i (hp # early @ [hl] @ mid) u"
  let ?u5 = "poll_switch hv i ?u4"
  note b = gesture_until_very_long[OF assms(1) h, of u]
  have seq5: "poll_switch_seq i (hp # early @ [hl] @ mid @ [hv]) u = ?u5"
    by (simp add: poll_switch_seq_def)
  have 5: "press_time ?u5 i = 0"
    using b hv(2) by (simp add: poll_switch_hold[OF hv(1)])
  show "events (queue (poll_switch_seq i (hp # early @ [hl] @ mid @ [hv]) u))
          = events (queue u) @
            [switch_event i 0, switch_event i (milliseconds hl - milliseconds hp),
             switch_event i (milliseconds hv - milliseconds hp)]"
    unfolding seq5 using b hv(2) by (simp add: poll_switch_hold[OF hv(1)])
  have seq6: "poll_switch_seq i (hp # early @ [hl] @ mid @ [hv] @ late) u = poll_switch_seq i late ?u5"
    by (simp add: poll_switch_seq_def)
  have 6: "press_time (poll_switch_seq i late ?u5) i = 0"
    by (rule holds_after_very_long[OF h3 5])
  have seq7: "poll_switch_seq i (hp # early @ [hl] @ mid @ [hv] @ late @ [hr]) u
      = poll_switch hr i (poll_switch_seq i late ?u5)"
    by (simp add: poll_switch_seq_def)
  show "events (queue (poll_switch_seq i (hp # early @ [hl] @ mid @ [hv] @ late @ [hr]) u))
          = events (queue (poll_switch_seq i (hp # early @ [hl] @ mid @ [hv] @ late) u))"
    unfolding seq7 seq6 using 6 by (simp add: poll_switch_release[OF assms(3)])
qed

lemma gesture_polls:
  "press_poll (press_at t) SWITCH_SELECT" "hold_poll (held_at t) SWITCH_SELECT"
  "release_poll (release_at t) SWITCH_SELECT"
  "milliseconds (press_at t) = t" "milliseconds (held_at t) = t" "milliseconds (release_at t) = t"
  by (simp_all add: press_poll_def hold_poll_def release_poll_def press_at_def held_at_def
      release_at_def switch_panel_def)

lemma events_booted: "events (queue booted) = []"
  by (simp add: booted_eq zeroed_ui_def)

lemma switch_view_poll_switch:
  "switch_view i (poll_switch h i u) = view_step i h (switch_view i u)"
  by (simp add: switch_view_def view_step_def poll_switch_def switch_just_pressed_def
      switch_held_def switch_released_def Let_def AddEvent_def switch_event_def)

lemma switch_view_seq:
  "switch_view i (poll_switch_seq i hs u) = fold (view_step i) hs (switch_view i u)"
  by (induction hs arbitrary: u) (simp_all add: poll_switch_seq_simps switch_view_poll_switch)

lemma events_seq:
  "events (queue (poll_switch_seq i hs u)) = snd (snd (fold (view_step i) hs (switch_view i u)))"
proof -
  have "events (queue (poll_switch_seq i hs u)) = snd (snd (switch_view i (poll_switch_seq i hs u)))"
    by (simp add: switch_view_def)
  then show ?thesis by (simp only: switch_view_seq)
qed

lemma switch_view_booted: "switch_view i booted = (0, False, [])"
  by (simp add: switch_view_def booted_eq zeroed_ui_def)

lemma view_step_at:
  "view_step SWITCH_SELECT (press_at t) (pt, det, evs)
     = (if t = 0 then (0, False, evs @ [switch_event SWITCH_SELECT 0])
        else (t, False, evs @ [switch_event SWITCH_SELECT 0]))"
  "view_step SWITCH_SELECT (held_at t) (pt, det, evs)
     = (if det then (if 2000 < sint (t - pt) then (0, False, evs @ [switch_event SWITCH_SELECT (t - pt)])
                     else (pt, det, evs))
        else (if 500 < sint (t - pt) then (pt, True, evs @ [switch_event SWITCH_SELECT (t - pt)])
              else (pt, det, evs)))"
  "view_step SWITCH_SELECT (release_at t) (pt, det, evs)
     = (if pt \<noteq> 0 \<and> \<not> det then (0, False, evs @ [switch_event SWITCH_SELECT (t - pt + 1)])
        else (pt, det, evs))"
  by (simp_all add: view_step_def press_at_def held_at_def release_at_def switch_panel_def
      sless_500 sless_2000)

theorem switch_gesture_events_witness:
  "events (queue (poll_switch_seq SWITCH_SELECT
      [press_at 1000, held_at 1100, held_at 1200, release_at 1300] booted))
    = [switch_event SWITCH_SELECT 0, switch_event SWITCH_SELECT 301]
   \<and> events (queue (poll_switch_seq SWITCH_SELECT
      [press_at 1000, held_at 1250, held_at 1500, held_at 1750, held_at 2000, release_at 2250] booted))
    = [switch_event SWITCH_SELECT 0, switch_event SWITCH_SELECT 750]
   \<and> events (queue (poll_switch_seq SWITCH_SELECT
      [press_at 1000, held_at 1250, held_at 1750, held_at 2500, held_at 3250] booted))
    = [switch_event SWITCH_SELECT 0, switch_event SWITCH_SELECT 750, switch_event SWITCH_SELECT 2250]
   \<and> events (queue (poll_switch_seq SWITCH_SELECT
      [press_at 1000, held_at 1250, held_at 1750, held_at 2500, held_at 3250, held_at 3500,
       release_at 3750] booted))
    = events (queue (poll_switch_seq SWITCH_SELECT
      [press_at 1000, held_at 1250, held_at 1750, held_at 2500, held_at 3250, held_at 3500] booted))"
proof -
  have a: "events (queue (poll_switch_seq SWITCH_SELECT
      [press_at 1000, held_at 1100, held_at 1200, release_at 1300] booted))
    = [switch_event SWITCH_SELECT 0, switch_event SWITCH_SELECT 301]"
    using switch_gesture_events[where hp = "press_at 1000" and i = SWITCH_SELECT
          and hr = "release_at 1300" and u = booted and hs = "[held_at 1100, held_at 1200]",
          THEN conjunct1]
    by (simp add: gesture_polls held_for_def events_booted)
  have b: "events (queue (poll_switch_seq SWITCH_SELECT
      [press_at 1000, held_at 1250, held_at 1500, held_at 1750, held_at 2000, release_at 2250] booted))
    = [switch_event SWITCH_SELECT 0, switch_event SWITCH_SELECT 750]"
    using switch_gesture_events[where hp = "press_at 1000" and i = SWITCH_SELECT
          and hr = "release_at 2250" and u = booted and early = "[held_at 1250, held_at 1500]"
          and hl = "held_at 1750" and mid = "[held_at 2000]", THEN conjunct2, THEN conjunct1]
    by (simp add: gesture_polls held_for_def events_booted)
  have c: "events (queue (poll_switch_seq SWITCH_SELECT
      [press_at 1000, held_at 1250, held_at 1750, held_at 2500, held_at 3250] booted))
    = [switch_event SWITCH_SELECT 0, switch_event SWITCH_SELECT 750, switch_event SWITCH_SELECT 2250]
   \<and> events (queue (poll_switch_seq SWITCH_SELECT
      [press_at 1000, held_at 1250, held_at 1750, held_at 2500, held_at 3250, held_at 3500,
       release_at 3750] booted))
    = events (queue (poll_switch_seq SWITCH_SELECT
      [press_at 1000, held_at 1250, held_at 1750, held_at 2500, held_at 3250, held_at 3500] booted))"
    using switch_gesture_events[where hp = "press_at 1000" and i = SWITCH_SELECT
          and hr = "release_at 3750" and u = booted and early = "[held_at 1250]"
          and hl = "held_at 1750" and mid = "[held_at 2500]" and hv = "held_at 3250"
          and late = "[held_at 3500]", THEN conjunct2, THEN conjunct2]
    by (simp add: gesture_polls held_for_def events_booted)
  from a b c show ?thesis by blast
qed

text \<open>
  The claim as it was stated fails on its second and third sequence. A switch pressed
  at 1000 ms, polled every 100 ms and released at 2000 ms (a hold of 1000 ms) yields
  press and long-press and no release event. A switch pressed at 1000 ms and polled
  held at 1600, 3100, 3200 and 3300 ms yields two more events after the
  very-long-press of 3100 ms: \<open>press_time\<close> is 0 by then, so the time held is taken to
  be the clock value itself.
\<close>

theorem switch_gesture_counterexample:
  "events (queue (poll_switch_seq SWITCH_SELECT
      [press_at 1000, held_at 1100, held_at 1200, held_at 1300, held_at 1400, held_at 1500,
       held_at 1600, held_at 1700, held_at 1800, held_at 1900, release_at 2000] booted))
    = [switch_event SWITCH_SELECT 0, switch_event SWITCH_SELECT 600]
   \<and> events (queue (poll_switch_seq SWITCH_SELECT
      [press_at 1000, held_at 1600, held_at 3100, held_at 3200, held_at 3300, release_at 3500]
      booted))
    = [switch_event SWITCH_SELECT 0, switch_event SWITCH_SELECT 600,
       switch_event SWITCH_SELECT 2100, switch_event SWITCH_SELECT 3200,
       switch_event SWITCH_SELECT 3300]"
  by (simp add: events_seq switch_view_booted view_step_at)

section \<open>Release events are never press events\<close>

text \<open>
  The handlers commute with an update of the queue, so the loop of \<open>DoEvents\<close> handles
  the queued events in order, each on the state the one before left, and empties the
  queue.
\<close>

lemma fold_queue_update:
  assumes "\<And>i v. f i (v\<lparr>queue := q\<rparr>) = (f i v)\<lparr>queue := q\<rparr>"
  shows "fold f xs (v\<lparr>queue := q\<rparr>) = (fold f xs v)\<lparr>queue := q\<rparr>"
  by (induction xs arbitrary: v) (simp_all add: assms)

lemma OnSwitchReleased_queue_update:
  "OnSwitchReleased e (u\<lparr>queue := q\<rparr>) = (OnSwitchReleased e u)\<lparr>queue := q\<rparr>"
proof -
  have zoom: "fold (\<lambda>i v. if uint kCatchupThreshold
                                  < \<bar>uint (pot_value v i) - uint (pot_coarse_value v i)\<bar>
                              then v\<lparr>catchup_state := (catchup_state v)(i := True)\<rparr>
                              else v) xs (v\<lparr>queue := q\<rparr>)
      = (fold (\<lambda>i v. if uint kCatchupThreshold
                                  < \<bar>uint (pot_value v i) - uint (pot_coarse_value v i)\<bar>
                              then v\<lparr>catchup_state := (catchup_state v)(i := True)\<rparr>
                              else v) xs v)\<lparr>queue := q\<rparr>" for xs v
    by (rule fold_queue_update) simp
  have normal: "fold (\<lambda>i v. v\<lparr>lfos := (lfos v)(i := Lfo_Init (lfos v i))\<rparr>) xs (v\<lparr>queue := q\<rparr>)
      = (fold (\<lambda>i v. v\<lparr>lfos := (lfos v)(i := Lfo_Init (lfos v i))\<rparr>) xs v)\<lparr>queue := q\<rparr>" for xs v
    by (rule fold_queue_update) simp
  have swap: "v\<lparr>queue := q, feat_mode := f\<rparr> = (v\<lparr>feat_mode := f\<rparr>)\<lparr>queue := q\<rparr>" for v :: Ui and f
    by simp
  have normal': "fold (\<lambda>i v. v\<lparr>lfos := (lfos v)(i := Lfo_Init (lfos v i))\<rparr>) xs (v\<lparr>queue := q, feat_mode := f\<rparr>)
      = (fold (\<lambda>i v. v\<lparr>lfos := (lfos v)(i := Lfo_Init (lfos v i))\<rparr>) xs (v\<lparr>feat_mode := f\<rparr>))\<lparr>queue := q\<rparr>" for xs and v :: Ui and f
    by (subst swap) (rule normal)
  show ?thesis
    by (simp add: OnSwitchReleased_def zoom normal' split: UiMode.split)
qed

lemma dispatch_queue_update:
  "dispatch e (u\<lparr>queue := q\<rparr>) = (dispatch e u)\<lparr>queue := q\<rparr>"
  by (simp add: dispatch_def OnSwitchPressed_def OnSwitchReleased_queue_update OnPotChanged_def
      split: option.split Handler.split UiMode.split)

lemma fold_dispatch_queue_update:
  "fold dispatch es (u\<lparr>queue := q\<rparr>) = (fold dispatch es u)\<lparr>queue := q\<rparr>"
  by (induction es arbitrary: u) (simp_all add: dispatch_queue_update)

lemma queue_fold_dispatch: "queue (fold dispatch es u) = queue u"
  by (induction es arbitrary: u) (simp_all add: queue_dispatch)

lemma DoEvents_loop_fold:
  "DoEvents_loop u = (fold dispatch (events (queue u)) u)\<lparr>queue := (queue u)\<lparr>events := []\<rparr>\<rparr>"
proof (induction "events (queue u)" arbitrary: u)
  case Nil
  then show ?case
    by (subst DoEvents_loop.simps) (simp add: available_def)
next
  case (Cons e es)
  let ?q = "(queue u)\<lparr>events := es\<rparr>"
  let ?u = "dispatch e (u\<lparr>queue := ?q\<rparr>)"
  have q: "queue ?u = ?q" by (simp add: queue_dispatch)
  have "es = events (queue ?u)" unfolding q by simp
  then have IH: "DoEvents_loop ?u = (fold dispatch (events (queue ?u)) ?u)\<lparr>queue := (queue ?u)\<lparr>events := []\<rparr>\<rparr>"
    by (rule Cons.hyps(1))
  have "DoEvents_loop u = DoEvents_loop ?u"
    using Cons.hyps(2)[symmetric]
    by (subst DoEvents_loop.simps) (simp add: available_def PullEvent_def)
  also have "\<dots> = (fold dispatch es ?u)\<lparr>queue := (queue u)\<lparr>events := []\<rparr>\<rparr>"
    unfolding IH q by simp
  also have "fold dispatch es ?u = (fold dispatch es (dispatch e u))\<lparr>queue := ?q\<rparr>"
    by (simp add: dispatch_queue_update fold_dispatch_queue_update)
  finally show ?case using Cons.hyps(2)[symmetric] by simp
qed


text \<open>
  Between the press and the release, the switch part of \<open>Poll\<close> is in one of two
  conditions: the release is blocked (the very-long-press flag is set, or the press
  time is 0), or the press time is that of the press and the last poll saw the switch
  held for at most 500 ms. The first poll that sees more than 500 ms sets the flag;
  with polls at most \<open>max_poll_gap\<close> apart it sees less than 2147483647 ms, so
  the signed \<open>pressed_time\<close> it compares is the time elapsed.
\<close>

lemma hold_keeps_blocked:
  assumes "hold_poll h i" and "detect_very_long_press u i \<or> press_time u i = 0"
  shows "detect_very_long_press (poll_switch h i u) i \<or> press_time (poll_switch h i u) i = 0"
  using assms(2) by (auto simp: poll_switch_hold[OF assms(1)])

lemma unat_diff_chain:
  fixes a b c :: "32 word"
  assumes "unat (b - a) \<le> 500" and "unat (c - b) \<le> max_poll_gap"
  shows "unat (c - a) = unat (c - b) + unat (b - a)" and "unat (c - a) \<le> 2147483646"
    and "sint (c - a) = int (unat (c - a))"
proof -
  have gap: "unat (c - b) \<le> 2147483146" using assms(2) unfolding max_poll_gap_def .
  have sum: "unat (c - b) + unat (b - a) \<le> 2147483646" using gap assms(1) by linarith
  then have "unat (c - b) + unat (b - a) < 4294967296" by linarith
  then have "unat (c - b) + unat (b - a) < 2 ^ LENGTH(32)" by simp
  then have e1: "unat ((c - b) + (b - a)) = unat (c - b) + unat (b - a)"
    by (simp only: unat_add_lem)
  have e2: "(c - b) + (b - a) = c - a" by simp
  show eq: "unat (c - a) = unat (c - b) + unat (b - a)" using e1 unfolding e2 .
  show le: "unat (c - a) \<le> 2147483646" using sum unfolding eq .
  have u: "uint (c - a) = int (unat (c - a))" by (rule uint_nat)
  from le have "int (unat (c - a)) < 2147483648" by linarith
  then have "uint (c - a) < 2147483648" unfolding u .
  then have "sint (c - a) = uint (c - a)" by (rule sint_eq_uint_32)
  then show "sint (c - a) = int (unat (c - a))" unfolding u .
qed

lemma hold_keeps_unarmed:
  assumes "hold_poll h i" and "unat (milliseconds h - t) \<le> max_poll_gap"
    and "(detect_very_long_press u i \<or> press_time u i = 0)
          \<or> (press_time u i = t0 \<and> unat (t - t0) \<le> 500)"
  shows "(detect_very_long_press (poll_switch h i u) i \<or> press_time (poll_switch h i u) i = 0)
          \<or> (press_time (poll_switch h i u) i = t0 \<and> unat (milliseconds h - t0) \<le> 500)"
proof (cases "detect_very_long_press u i \<or> press_time u i = 0")
  case True
  then show ?thesis using hold_keeps_blocked[OF assms(1)] by blast
next
  case False
  with assms(3) have pt: "press_time u i = t0" and le: "unat (t - t0) \<le> 500"
    and nd: "\<not> detect_very_long_press u i" by auto
  have s: "held_for t0 h = int (unat (milliseconds h - t0))"
    unfolding held_for_def using unat_diff_chain(3)[OF le assms(2)] .
  show ?thesis
  proof (cases "500 < held_for t0 h")
    case True
    then have "detect_very_long_press (poll_switch h i u) i"
      using nd pt by (simp add: poll_switch_hold(2)[OF assms(1)])
    then show ?thesis by blast
  next
    case False
    then have "unat (milliseconds h - t0) \<le> 500" unfolding s by linarith
    moreover have "press_time (poll_switch h i u) i = t0"
      using nd pt by (simp add: poll_switch_hold(1)[OF assms(1)])
    ultimately show ?thesis by blast
  qed
qed

lemma release_after_holds:
  assumes "\<forall>h\<in>set hs. hold_poll h i" and "spaced t (hs @ [hr])"
    and "(detect_very_long_press u i \<or> press_time u i = 0)
          \<or> (press_time u i = t0 \<and> unat (t - t0) \<le> 500)"
    and "press_time (poll_switch_seq i hs u) i \<noteq> 0"
    and "\<not> detect_very_long_press (poll_switch_seq i hs u) i"
  shows "press_time (poll_switch_seq i hs u) i = t0 \<and> unat (milliseconds hr - t0) \<le> 2147483646"
  using assms
proof (induction hs arbitrary: u t)
  case Nil
  then have pt: "press_time u i = t0" and le: "unat (t - t0) \<le> 500"
    and gap: "unat (milliseconds hr - t) \<le> max_poll_gap"
    by (auto simp: poll_switch_seq_simps)
  show ?case using pt unat_diff_chain(2)[OF le gap] by (simp add: poll_switch_seq_simps)
next
  case (Cons h hs)
  from Cons.prems(1) have h: "hold_poll h i" and hs: "\<forall>h\<in>set hs. hold_poll h i" by auto
  from Cons.prems(2) have gap: "unat (milliseconds h - t) \<le> max_poll_gap"
    and sp: "spaced (milliseconds h) (hs @ [hr])" by auto
  note inv = hold_keeps_unarmed[OF h gap Cons.prems(3)]
  show ?case
    using Cons.IH[OF hs sp inv] Cons.prems(4,5) by (simp add: poll_switch_seq_simps)
qed

lemma poll_switch_keeps_modes:
  "mode (poll_switch h i u) = mode u" "feat_mode (poll_switch h i u) = feat_mode u"
  by (simp_all add: poll_switch_def switch_released_def switch_held_def switch_just_pressed_def
      Let_def)

lemma poll_switch_seq_keeps_modes:
  "mode (poll_switch_seq i hs u) = mode u \<and> feat_mode (poll_switch_seq i hs u) = feat_mode u"
  by (induction hs arbitrary: u) (simp_all add: poll_switch_seq_simps poll_switch_keeps_modes)

lemma feat_mode_short_release:
  assumes "mode u = UI_MODE_NORMAL" and "\<not> 500 < sint d"
  shows "feat_mode (OnSwitchReleased (switch_event SWITCH_SELECT d) u)
          = (feat_mode u + 1) mod FEAT_MODE_LAST"
  using assms
  by (simp add: OnSwitchReleased_def switch_event_def select_not_others sless_500 sless_2000
      fold_lfo_init_upt)

text \<open>
  Claim C9. Switch \<open>i\<close> goes through a press-hold-release cycle: the press is polled
  at \<open>hp\<close>, the holds at \<open>hs\<close> (there may be none) and the release at \<open>hr\<close>, each
  poll at most \<open>max_poll_gap\<close> milliseconds after the one before. The release poll
  enqueues an event only if the press time is not 0 and the very-long-press flag is
  clear, and then exactly one: a switch event whose data is the clock difference
  between the release and the press, plus 1. That difference is then the elapsed hold
  time, and the signed data is the elapsed time plus 1, which is at least 1.
  \<open>DoEvents\<close> calls \<open>OnSwitchPressed\<close> for a switch event exactly when its data is
  0 and \<open>OnSwitchReleased\<close> otherwise. So the loop of \<open>DoEvents\<close>, run after the
  release poll, handles the events queued before and then calls \<open>OnSwitchReleased\<close>
  on the release event, and \<open>DoEvents\<close> returns, apart from the queue, the state
  that call returns.
\<close>

theorem release_event_never_a_press:
  assumes "press_poll hp i" and "\<forall>h\<in>set hs. hold_poll h i" and "release_poll hr i"
    and "spaced (milliseconds hp) (hs @ [hr])"
  shows "let v = poll_switch_seq i (hp # hs) u;
             w = poll_switch hr i v;
             d = milliseconds hr - milliseconds hp + 1;
             e = switch_event i d
         in events (queue w) = events (queue v) @
              (if press_time v i \<noteq> 0 \<and> \<not> detect_very_long_press v i then [e] else [])
          \<and> (press_time v i \<noteq> 0 \<and> \<not> detect_very_long_press v i \<longrightarrow>
                sint d = int (unat (milliseconds hr - milliseconds hp)) + 1
              \<and> 1 \<le> sint d
              \<and> select_handler e = Some ON_SWITCH_RELEASED
              \<and> dispatch e x = OnSwitchReleased e x
              \<and> DoEvents_loop w
                  = (OnSwitchReleased e (fold dispatch (events (queue v)) w))
                      \<lparr>queue := (queue w)\<lparr>events := []\<rparr>\<rparr>
              \<and> (DoEvents t w)\<lparr>queue := q\<rparr>
                  = (OnSwitchReleased e (fold dispatch (events (queue v)) w))\<lparr>queue := q\<rparr>)
          \<and> (control_type e' = CONTROL_SWITCH \<longrightarrow>
                (select_handler e' = Some ON_SWITCH_PRESSED) = (data e' = 0)
              \<and> dispatch e' x
                  = (if data e' = 0 then OnSwitchPressed e' x else OnSwitchReleased e' x))"
proof -
  define v where "v = poll_switch_seq i (hp # hs) u"
  define w where "w = poll_switch hr i v"
  define d where "d = milliseconds hr - milliseconds hp + 1"
  define e where "e = switch_event i d"
  define E where "E = (press_time v i \<noteq> 0 \<and> \<not> detect_very_long_press v i)"
  have v: "v = poll_switch_seq i hs (poll_switch hp i u)"
    by (simp add: v_def poll_switch_seq_simps)
  have inv: "(detect_very_long_press (poll_switch hp i u) i \<or> press_time (poll_switch hp i u) i = 0)
          \<or> (press_time (poll_switch hp i u) i = milliseconds hp
              \<and> unat (milliseconds hp - milliseconds hp) \<le> 500)"
    by (simp add: poll_switch_press(1)[OF assms(1)])
  have armed: "press_time v i = milliseconds hp
      \<and> unat (milliseconds hr - milliseconds hp) \<le> 2147483646" if E
    using release_after_holds[OF assms(2) assms(4) inv] that unfolding E_def v by blast
  have ev: "events (queue w) = events (queue v) @ (if E then [e] else [])"
    using armed by (auto simp: w_def poll_switch_release[OF assms(3)] E_def e_def d_def)
  have small: "milliseconds hr - milliseconds hp < 2147483647" if E
    using armed[OF that] by (simp add: word_less_nat_alt)
  have s: "sint d = int (unat (milliseconds hr - milliseconds hp)) + 1" if E
    unfolding d_def using small[OF that] by (rule sint_succ_small(1))
  have nz: "d \<noteq> 0" if E
    unfolding d_def using small[OF that] by (rule sint_succ_small(2))
  have ge: "1 \<le> sint d" if E using s[OF that] by simp
  have sel: "select_handler e = Some ON_SWITCH_RELEASED" if E
    using nz[OF that] by (simp add: select_handler_def e_def switch_event_def)
  have dis: "dispatch e y = OnSwitchReleased e y" if E for y
    using sel[OF that] by (simp add: dispatch_def)
  have loop: "DoEvents_loop w
      = (OnSwitchReleased e (fold dispatch (events (queue v)) w))
          \<lparr>queue := (queue w)\<lparr>events := []\<rparr>\<rparr>" if E
    using that by (simp add: DoEvents_loop_fold[of w] ev dis)
  have doev: "(DoEvents t w)\<lparr>queue := q\<rparr>
      = (OnSwitchReleased e (fold dispatch (events (queue v)) w))\<lparr>queue := q\<rparr>" if E
    by (simp add: DoEvents_def Let_def loop[OF that])
  have gen: "control_type e' = CONTROL_SWITCH \<longrightarrow>
                (select_handler e' = Some ON_SWITCH_PRESSED) = (data e' = 0)
              \<and> dispatch e' x
                  = (if data e' = 0 then OnSwitchPressed e' x else OnSwitchReleased e' x)"
    by (simp add: select_handler_def dispatch_def)
  have "events (queue w) = events (queue v) @ (if E then [e] else [])
     \<and> (E \<longrightarrow> sint d = int (unat (milliseconds hr - milliseconds hp)) + 1
              \<and> 1 \<le> sint d
              \<and> select_handler e = Some ON_SWITCH_RELEASED
              \<and> dispatch e x = OnSwitchReleased e x
              \<and> DoEvents_loop w
                  = (OnSwitchReleased e (fold dispatch (events (queue v)) w))
                      \<lparr>queue := (queue w)\<lparr>events := []\<rparr>\<rparr>
              \<and> (DoEvents t w)\<lparr>queue := q\<rparr>
                  = (OnSwitchReleased e (fold dispatch (events (queue v)) w))\<lparr>queue := q\<rparr>)
     \<and> (control_type e' = CONTROL_SWITCH \<longrightarrow>
                (select_handler e' = Some ON_SWITCH_PRESSED) = (data e' = 0)
              \<and> dispatch e' x
                  = (if data e' = 0 then OnSwitchPressed e' x else OnSwitchReleased e' x))"
    using ev s ge sel dis loop doev gen by blast
  then show ?thesis
    unfolding Let_def E_def e_def d_def w_def v_def .
qed


theorem release_event_never_a_press_witness:
  "press_poll (press_at 1000) SWITCH_SELECT
   \<and> hold_poll (held_at 1200) SWITCH_SELECT
   \<and> release_poll (release_at 1300) SWITCH_SELECT
   \<and> spaced 1000 [held_at 1200, release_at 1300]
   \<and> events (queue (poll_switch_seq SWITCH_SELECT
        [press_at 1000, held_at 1200, release_at 1300] (booted\<lparr>mode := UI_MODE_NORMAL\<rparr>)))
      = [switch_event SWITCH_SELECT 0, switch_event SWITCH_SELECT 301]
   \<and> feat_mode (booted\<lparr>mode := UI_MODE_NORMAL\<rparr>) = 0
   \<and> feat_mode (DoEvents 1300 (poll_switch_seq SWITCH_SELECT
        [press_at 1000, held_at 1200, release_at 1300] (booted\<lparr>mode := UI_MODE_NORMAL\<rparr>))) = 1"
proof -
  define u where "u = booted\<lparr>mode := UI_MODE_NORMAL\<rparr>"
  define v where "v = poll_switch_seq SWITCH_SELECT [press_at 1000, held_at 1200] u"
  define w where "w = poll_switch (release_at 1300) SWITCH_SELECT v"
  define e where "e = switch_event SWITCH_SELECT 301"
  have w: "poll_switch_seq SWITCH_SELECT [press_at 1000, held_at 1200, release_at 1300] u = w"
    by (simp add: w_def v_def poll_switch_seq_def)
  have "switch_view SWITCH_SELECT u = (0, False, [])"
    by (simp add: u_def switch_view_def booted_eq zeroed_ui_def)
  then have "switch_view SWITCH_SELECT v = (1000, False, [switch_event SWITCH_SELECT 0])"
    by (simp add: v_def switch_view_seq view_step_at)
  then have pt: "press_time v SWITCH_SELECT = 1000"
    and det: "\<not> detect_very_long_press v SWITCH_SELECT"
    and evs: "events (queue v) = [switch_event SWITCH_SELECT 0]"
    by (simp_all add: switch_view_def)
  have main: "events (queue w) = [switch_event SWITCH_SELECT 0, e]
     \<and> (DoEvents 1300 w)\<lparr>queue := queue u\<rparr>
        = (OnSwitchReleased e (fold dispatch [switch_event SWITCH_SELECT 0] w))\<lparr>queue := queue u\<rparr>"
    using release_event_never_a_press[where hp = "press_at 1000" and i = SWITCH_SELECT
        and hs = "[held_at 1200]" and hr = "release_at 1300" and u = u and x = u and t = 1300
        and q = "queue u" and e' = e]
    by (simp add: Let_def gesture_polls max_poll_gap_def v_def[symmetric] w_def[symmetric]
        pt det evs e_def)
  have modes: "mode w = UI_MODE_NORMAL" "feat_mode w = 0"
    unfolding w[symmetric]
    by (simp_all add: poll_switch_seq_keeps_modes u_def booted_eq zeroed_ui_def)
  have press: "fold dispatch [switch_event SWITCH_SELECT 0] w = w"
    by (simp add: dispatch_def select_handler_def switch_event_def OnSwitchPressed_def)
  have "feat_mode (DoEvents 1300 w) = feat_mode ((DoEvents 1300 w)\<lparr>queue := queue u\<rparr>)"
    by simp
  also have "\<dots> = feat_mode (OnSwitchReleased e w)"
    using main unfolding press by simp
  also have "\<dots> = 1"
    unfolding e_def by (simp add: feat_mode_short_release modes FEAT_MODE_LAST_def)
  finally have fm: "feat_mode (DoEvents 1300 w) = 1" .
  have "feat_mode u = 0" by (simp add: u_def booted_eq zeroed_ui_def)
  with main fm show ?thesis
    unfolding w[symmetric] unfolding u_def e_def
    by (simp add: gesture_polls max_poll_gap_def)
qed

section \<open>The SPLASH mode\<close>

lemma catchup_fold_frame:
  fixes v :: Ui
  defines "F \<equiv> (\<lambda>i v. if uint kCatchupThreshold
                                  < \<bar>uint (pot_value v i) - uint (pot_coarse_value v i)\<bar>
                              then v\<lparr>catchup_state := (catchup_state v)(i := True)\<rparr>
                              else v)"
  shows "mode (fold F xs v) = mode v"
    and "pot_value (fold F xs v) = pot_value v"
    and "pot_coarse_value (fold F xs v) = pot_coarse_value v"
  by (induction xs arbitrary: v) (simp_all add: F_def)

lemma mode_OnSwitchReleased:
  "mode (OnSwitchReleased e u) =
    (if control_id e = SWITCH_SELECT \<and> \<not> kVeryLongPressDuration <s data e
     then (if kLongPressDuration <s data e then UI_MODE_ZOOM
           else (case mode u of UI_MODE_SPLASH \<Rightarrow> UI_MODE_SPLASH | _ \<Rightarrow> UI_MODE_NORMAL))
     else mode u)"
  by (simp add: OnSwitchReleased_def select_not_others catchup_fold_frame fold_lfo_init_upt
      split: UiMode.split)

lemma mode_OnPotChanged: "mode (OnPotChanged e u) = mode u"
  by (simp add: OnPotChanged_def split: UiMode.split)

lemma mode_dispatch:
  "mode (dispatch e u) =
    (if control_type e = CONTROL_SWITCH \<and> data e \<noteq> 0 then mode (OnSwitchReleased e u) else mode u)"
  by (simp add: dispatch_def select_handler_def OnSwitchPressed_def mode_OnPotChanged)

lemma dispatch_not_splash:
  "mode u \<noteq> UI_MODE_SPLASH \<Longrightarrow> mode (dispatch e u) \<noteq> UI_MODE_SPLASH"
  by (simp add: mode_dispatch mode_OnSwitchReleased split: UiMode.split)

lemma DoEvents_loop_not_splash:
  "mode u \<noteq> UI_MODE_SPLASH \<Longrightarrow> mode (DoEvents_loop u) \<noteq> UI_MODE_SPLASH"
proof (induction u rule: DoEvents_loop.induct)
  case (1 u)
  show ?case
  proof (cases "available (queue u)")
    case False
    then show ?thesis using 1(2) by (subst DoEvents_loop.simps) simp
  next
    case True
    obtain e q where p: "PullEvent (queue u) = (e, q)" by (cases "PullEvent (queue u)")
    have "mode (dispatch e (u\<lparr>queue := q\<rparr>)) \<noteq> UI_MODE_SPLASH"
      using 1(2) by (intro dispatch_not_splash) simp
    from 1(1)[OF True p[symmetric] this] show ?thesis
      using True p by (subst DoEvents_loop.simps) simp
  qed
qed

lemma switch_frame:
  "mode (poll_switch h i u) = mode u" "animation_counter (poll_switch h i u) = animation_counter u"
  by (simp_all add: poll_switch_def switch_released_def switch_held_def switch_just_pressed_def
      Let_def)

lemma pot_frame:
  "mode (poll_pot h i u) = mode u" "animation_counter (poll_pot h i u) = animation_counter u"
  by (simp_all add: poll_pot_def Let_def)

lemma fold_switch_frame:
  "mode (fold (poll_switch h) xs u) = mode u
   \<and> animation_counter (fold (poll_switch h) xs u) = animation_counter u"
  by (induction xs arbitrary: u) (simp_all add: switch_frame)

lemma fold_pot_frame:
  "mode (fold (poll_pot h) xs u) = mode u
   \<and> animation_counter (fold (poll_pot h) xs u) = animation_counter u"
  by (induction xs arbitrary: u) (simp_all add: pot_frame)

lemma paint_mode:
  "mode (paint u) =
    (if mode u = UI_MODE_SPLASH \<and> c_rem (sint (animation_counter u + 1)) 64 = 0
        \<and> 8 < c_div (sint (animation_counter u + 1)) 64
     then UI_MODE_NORMAL else mode u)"
  "animation_counter (paint u) = animation_counter u + 1"
  by (simp_all add: paint_def Let_def split: UiMode.split)

lemma Poll_mode:
  "mode (Poll h u) =
    (if mode u = UI_MODE_SPLASH \<and> c_rem (sint (animation_counter u + 1)) 64 = 0
        \<and> 8 < c_div (sint (animation_counter u + 1)) 64
     then UI_MODE_NORMAL else mode u)"
  "animation_counter (Poll h u) = animation_counter u + 1"
  by (simp_all add: Poll_def paint_mode fold_switch_frame fold_pot_frame)

lemma call_not_splash:
  "mode u \<noteq> UI_MODE_SPLASH \<Longrightarrow> mode (call c u) \<noteq> UI_MODE_SPLASH"
  by (cases c) (simp_all add: Poll_mode FlushEvents_def DoEvents_def Let_def DoEvents_loop_not_splash)

lemma run_not_splash:
  "mode u \<noteq> UI_MODE_SPLASH \<Longrightarrow> mode (run cs u) \<noteq> UI_MODE_SPLASH"
  unfolding run_def by (induction cs arbitrary: u) (simp_all add: call_not_splash)

lemma sint_of_nat_32:
  assumes "m < 2147483648"
  shows "sint (of_nat m :: u32) = int m"
proof -
  have "m < 2 ^ LENGTH(32)" using assms by simp
  then have "unat (of_nat m :: u32) = m" by (rule of_nat_inverse[OF refl])
  then have u: "uint (of_nat m :: u32) = int m" by (simp only: uint_nat)
  have "int m < 2147483648" using assms by linarith
  then have "uint (of_nat m :: u32) < 2147483648" unfolding u .
  then have "sint (of_nat m :: u32) = uint (of_nat m :: u32)" by (rule sint_eq_uint_32)
  with u show ?thesis by (simp only:)
qed

lemma c_div_rem_nat:
  "c_div (int m) 64 = int (m div 64)" "c_rem (int m) 64 = int (m mod 64)"
proof -
  have ab: "\<bar>int m\<bar> = int m" by simp
  show d: "c_div (int m) 64 = int (m div 64)"
    unfolding c_div_def ab by (simp add: zdiv_int)
  have "int m = 64 * (int m div 64) + int m mod 64" by (rule mult_div_mod_eq[symmetric])
  then have "int m = 64 * int (m div 64) + int (m mod 64)"
    by (simp only: zdiv_int zmod_int of_nat_numeral)
  then show "c_rem (int m) 64 = int (m mod 64)"
    unfolding c_rem_def d by linarith
qed

lemma splash_ends_at_576:
  assumes "n < 576"
  shows "(Suc n mod 64 = 0 \<and> 8 < Suc n div 64) = (\<not> Suc n < 576)"
proof (cases "Suc n < 576")
  case True
  have "(Suc n div 64 < 9) = (Suc n < 9 * 64)" by (rule div_less_iff_less_mult) simp
  with True have "Suc n div 64 < 9" by simp
  then have "\<not> 8 < Suc n div 64" by linarith
  with True show ?thesis by blast
next
  case False
  with assms have "Suc n = 576" by linarith
  then show ?thesis by simp
qed

lemma splash_polls:
  assumes "mode u = UI_MODE_SPLASH" and "animation_counter u = 0" and "length hs < 2147483648"
  shows "mode (fold Poll hs u) = (if length hs < 576 then UI_MODE_SPLASH else UI_MODE_NORMAL)
    \<and> animation_counter (fold Poll hs u) = of_nat (length hs)"
  using assms(3)
proof (induction hs rule: rev_induct)
  case Nil
  show ?case using assms(1,2) by simp
next
  case (snoc h hs)
  define n where "n = length hs"
  define v where "v = fold Poll hs u"
  have n: "Suc n < 2147483648" using snoc.prems by (simp add: n_def)
  then have "length hs < 2147483648" by (simp add: n_def)
  from snoc.IH[OF this]
  have ih: "mode v = (if n < 576 then UI_MODE_SPLASH else UI_MODE_NORMAL)"
    "animation_counter v = of_nat n"
    by (simp_all add: n_def v_def)
  have c: "animation_counter v + 1 = of_nat (Suc n)" using ih(2) by simp
  have s: "sint (animation_counter v + 1) = int (Suc n)"
    unfolding c by (rule sint_of_nat_32[OF n])
  have pm: "mode (Poll h v) =
      (if mode v = UI_MODE_SPLASH \<and> int (Suc n mod 64) = 0 \<and> 8 < int (Suc n div 64)
       then UI_MODE_NORMAL else mode v)"
    unfolding Poll_mode(1) s c_div_rem_nat ..
  have e: "(int (Suc n mod 64) = 0) = (Suc n mod 64 = 0)" "(8 < int (Suc n div 64)) = (8 < Suc n div 64)"
    by linarith+
  have m: "mode (Poll h v) = (if Suc n < 576 then UI_MODE_SPLASH else UI_MODE_NORMAL)"
  proof (cases "n < 576")
    case True
    then have "mode v = UI_MODE_SPLASH" using ih(1) by simp
    then show ?thesis
      unfolding pm e splash_ends_at_576[OF True] by simp
  next
    case False
    then have "mode v = UI_MODE_NORMAL" "\<not> Suc n < 576" using ih(1) by simp_all
    then show ?thesis unfolding pm by simp
  qed
  have "fold Poll (hs @ [h]) u = Poll h v" by (simp add: v_def)
  moreover have "length (hs @ [h]) = Suc n" by (simp add: n_def)
  moreover have "animation_counter (Poll h v) = of_nat (Suc n)"
    unfolding Poll_mode(2) c ..
  ultimately show ?case using m by simp
qed

text \<open>
  What the code does keep of the SPLASH mode: in SPLASH, every event other than a SELECT
  switch event with data above the long-press and not above the very-long-press
  threshold leaves the mode SPLASH; \<open>Poll\<close> sets the mode to NORMAL when the
  incremented animation counter is a multiple of 64 whose quotient by 64 exceeds 8, and
  leaves it SPLASH otherwise, which from a counter of 0 is the 576th poll; and once
  the mode is not SPLASH, no sequence of calls of \<open>Poll\<close>, \<open>FlushEvents\<close> and
  \<open>DoEvents\<close> makes it SPLASH again.
\<close>

lemma splash_kept_otherwise:
  "(mode u = UI_MODE_SPLASH
      \<and> \<not> (control_type e = CONTROL_SWITCH \<and> data e \<noteq> 0 \<and> control_id e = SWITCH_SELECT
            \<and> kLongPressDuration <s data e \<and> \<not> kVeryLongPressDuration <s data e) \<longrightarrow>
      mode (dispatch e u) = UI_MODE_SPLASH)
   \<and> (mode u = UI_MODE_SPLASH \<longrightarrow>
      mode (Poll h u) =
        (if c_rem (sint (animation_counter u + 1)) 64 = 0
            \<and> 8 < c_div (sint (animation_counter u + 1)) 64
         then UI_MODE_NORMAL else UI_MODE_SPLASH))
   \<and> (mode u = UI_MODE_SPLASH \<and> animation_counter u = 0 \<and> length hs < 2147483648 \<longrightarrow>
      mode (fold Poll hs u) = (if length hs < 576 then UI_MODE_SPLASH else UI_MODE_NORMAL))
   \<and> (mode u \<noteq> UI_MODE_SPLASH \<longrightarrow> mode (run cs u) \<noteq> UI_MODE_SPLASH)"
proof (intro conjI impI)
  assume "mode u = UI_MODE_SPLASH
      \<and> \<not> (control_type e = CONTROL_SWITCH \<and> data e \<noteq> 0 \<and> control_id e = SWITCH_SELECT
            \<and> kLongPressDuration <s data e \<and> \<not> kVeryLongPressDuration <s data e)"
  then show "mode (dispatch e u) = UI_MODE_SPLASH"
    by (auto simp: mode_dispatch mode_OnSwitchReleased)
next
  assume "mode u = UI_MODE_SPLASH"
  then show "mode (Poll h u) =
        (if c_rem (sint (animation_counter u + 1)) 64 = 0
            \<and> 8 < c_div (sint (animation_counter u + 1)) 64
         then UI_MODE_NORMAL else UI_MODE_SPLASH)"
    by (simp add: Poll_mode)
next
  assume "mode u = UI_MODE_SPLASH \<and> animation_counter u = 0 \<and> length hs < 2147483648"
  then show "mode (fold Poll hs u) = (if length hs < 576 then UI_MODE_SPLASH else UI_MODE_NORMAL)"
    using splash_polls[of u hs] by blast
next
  assume "mode u \<noteq> UI_MODE_SPLASH"
  then show "mode (run cs u) \<noteq> UI_MODE_SPLASH" by (rule run_not_splash)
qed

text \<open>
  Claim C2. While the interface is in SPLASH, the only transition out of it is the
  time-based one to NORMAL: no switch or pot event handled in SPLASH changes the
  mode, and SPLASH is never entered again. The code breaks this for one event. The
  long-press branch of \<open>OnSwitchReleased\<close> assigns \<open>UI_MODE_ZOOM\<close> without a test
  of the mode, where its short-release branch and \<open>OnPotChanged\<close> both name
  \<open>UI_MODE_SPLASH\<close> and ignore the event. After \<open>Init\<close>, SELECT pressed at 1000 ms
  and seen held at 1600 ms puts a long-press event of 600 ms in the queue, and
  \<open>DoEvents\<close> takes the interface from SPLASH to ZOOM after two polls of the splash
  animation.
\<close>

theorem splash_left_by_long_press:
  "mode booted = UI_MODE_SPLASH
   \<and> mode (dispatch (switch_event SWITCH_SELECT 600) booted) = UI_MODE_ZOOM
   \<and> mode (run [CALL_POLL (press_at 1000), CALL_POLL (held_at 1600), CALL_DO_EVENTS 1600] booted)
       = UI_MODE_ZOOM"
  by code_simp

section \<open>Pot catch-up\<close>

lemma catchup_fold_flags:
  fixes v :: Ui
  defines "F \<equiv> (\<lambda>i v. if uint kCatchupThreshold
                                  < \<bar>uint (pot_value v i) - uint (pot_coarse_value v i)\<bar>
                              then v\<lparr>catchup_state := (catchup_state v)(i := True)\<rparr>
                              else v)"
  shows "catchup_state (fold F xs v) i =
          (catchup_state v i \<or> (i \<in> set xs \<and> uint kCatchupThreshold
                                  < \<bar>uint (pot_value v i) - uint (pot_coarse_value v i)\<bar>))"
proof (induction xs arbitrary: v)
  case Nil
  show ?case by simp
next
  case (Cons x xs)
  have pv: "pot_value (F x v) = pot_value v" "pot_coarse_value (F x v) = pot_coarse_value v"
    by (simp_all add: F_def)
  show ?case
    unfolding fold_simps Cons.IH[of "F x v"] pv by (auto simp: F_def)
qed

lemma short_release_in_zoom:
  assumes "mode u = UI_MODE_ZOOM"
    and "control_type e = CONTROL_SWITCH" and "control_id e = SWITCH_SELECT"
    and "data e \<noteq> 0" and "data e \<le>s kLongPressDuration"
  shows "mode (dispatch e u) = UI_MODE_NORMAL"
    and "pot_coarse_value (dispatch e u) = pot_coarse_value u"
    and "pot_value (dispatch e u) = pot_value u"
    and "catchup_state (dispatch e u) i =
          (catchup_state u i \<or> (i < 4 \<and> uint kCatchupThreshold
                                  < \<bar>uint (pot_value u i) - uint (pot_coarse_value u i)\<bar>))"
proof -
  have short: "\<not> kVeryLongPressDuration <s data e" "\<not> kLongPressDuration <s data e"
    using assms(5)
    by (auto simp: kVeryLongPressDuration_def kLongPressDuration_def word_sless_alt word_sle_eq)
  have d: "dispatch e u = OnSwitchReleased e u"
    using assms by (simp add: dispatch_def select_handler_def)
  show "mode (dispatch e u) = UI_MODE_NORMAL"
    unfolding d using assms(1,3) short by (simp add: mode_OnSwitchReleased)
  show "pot_coarse_value (dispatch e u) = pot_coarse_value u"
    unfolding d using assms(1,3) short
    by (simp add: OnSwitchReleased_def select_not_others catchup_fold_frame)
  show "pot_value (dispatch e u) = pot_value u"
    unfolding d using assms(1,3) short
    by (simp add: OnSwitchReleased_def select_not_others catchup_fold_frame)
  show "catchup_state (dispatch e u) i =
          (catchup_state u i \<or> (i < 4 \<and> uint kCatchupThreshold
                                  < \<bar>uint (pot_value u i) - uint (pot_coarse_value u i)\<bar>))"
    unfolding d using assms(1,3) short
    by (simp add: OnSwitchReleased_def select_not_others catchup_fold_flags)
qed

lemma pot_event_in_normal:
  assumes "mode u = UI_MODE_NORMAL" and "control_type m = CONTROL_POT"
  shows "dispatch m u =
    (if \<bar>sint (data m) - uint (pot_coarse_value u (control_id m))\<bar> < uint kCatchupThreshold
     then u\<lparr>pot_coarse_value := (pot_coarse_value u)(control_id m := ucast (data m)),
            catchup_state := (catchup_state u)(control_id m := False)\<rparr>
     else u)"
  using assms by (simp add: dispatch_def select_handler_def OnPotChanged_def)

lemma far_pot_events:
  assumes "mode u = UI_MODE_NORMAL"
    and "\<forall>m\<in>set ms. control_type m = CONTROL_POT \<and> control_id m < 4 \<and>
          (control_id m = i \<longrightarrow>
            \<not> \<bar>sint (data m) - uint (pot_coarse_value u i)\<bar> < uint kCatchupThreshold)"
  shows "mode (fold dispatch ms u) = UI_MODE_NORMAL
    \<and> pot_coarse_value (fold dispatch ms u) i = pot_coarse_value u i
    \<and> catchup_state (fold dispatch ms u) i = catchup_state u i"
  using assms
proof (induction ms arbitrary: u)
  case Nil
  then show ?case by simp
next
  case (Cons m ms)
  then have m: "control_type m = CONTROL_POT"
    "control_id m = i \<longrightarrow>
        \<not> \<bar>sint (data m) - uint (pot_coarse_value u i)\<bar> < uint kCatchupThreshold"
    by simp_all
  let ?v = "dispatch m u"
  have 1: "mode ?v = UI_MODE_NORMAL" "pot_coarse_value ?v i = pot_coarse_value u i"
    "catchup_state ?v i = catchup_state u i"
    using m(2) Cons.prems(1) by (auto simp: pot_event_in_normal[OF Cons.prems(1) m(1)])
  have "\<forall>k\<in>set ms. control_type k = CONTROL_POT \<and> control_id k < 4 \<and>
          (control_id k = i \<longrightarrow>
            \<not> \<bar>sint (data k) - uint (pot_coarse_value ?v i)\<bar> < uint kCatchupThreshold)"
    using Cons.prems(2) 1(2) by simp
  from Cons.IH[OF 1(1) this] 1 show ?case by simp
qed

lemma ucast_pot_data:
  fixes d :: i32
  assumes "0 \<le> sint d" and "sint d < 65536"
  shows "uint (ucast d :: u16) = sint d"
proof -
  have "uint d = take_bit 32 (sint d)" by (simp add: uint_sint)
  also have "\<dots> = sint d"
    by (rule take_bit_int_eq_self) (use assms in simp_all)
  finally have u: "uint d = sint d" .
  have "uint (ucast d :: u16) = take_bit 16 (uint d)"
    by (simp add: unsigned_ucast_eq)
  also have "\<dots> = uint d"
    by (rule take_bit_int_eq_self) (use assms u in simp_all)
  finally show ?thesis using u by simp
qed

text \<open>
  Claim C4. Let the interface be in ZOOM and pot \<open>i\<close> be further than the catch-up
  threshold from its coarse value when a short SELECT release takes the interface to
  NORMAL. Then the catch-up flag of the pot is set. Pot motion events handled after
  that (for any of the four pots) whose value, when they are for pot \<open>i\<close>, is not
  within the threshold of the coarse value leave the coarse value of pot \<open>i\<close> as it
  was and its flag set. A motion event for pot \<open>i\<close> within the threshold then sets the
  coarse value to the event's value and clears the flag. ``Exceeds'' is \<open>>\<close> and
  ``within'' is \<open><\<close>, as the code compares.
\<close>

theorem catchup_protocol:
  assumes "mode u = UI_MODE_ZOOM" and "i < 4"
    and "control_type e = CONTROL_SWITCH" and "control_id e = SWITCH_SELECT"
    and "data e \<noteq> 0" and "data e \<le>s kLongPressDuration"
    and "uint kCatchupThreshold < \<bar>uint (pot_value u i) - uint (pot_coarse_value u i)\<bar>"
    and "\<forall>m\<in>set ms. control_type m = CONTROL_POT \<and> control_id m < 4 \<and>
          (control_id m = i \<longrightarrow>
            \<not> \<bar>sint (data m) - uint (pot_coarse_value u i)\<bar> < uint kCatchupThreshold)"
    and "control_type m' = CONTROL_POT" and "control_id m' = i"
    and "\<bar>sint (data m') - uint (pot_coarse_value u i)\<bar> < uint kCatchupThreshold"
  shows "mode (dispatch e u) = UI_MODE_NORMAL
    \<and> catchup_state (dispatch e u) i
    \<and> pot_coarse_value (dispatch e u) i = pot_coarse_value u i
    \<and> mode (fold dispatch ms (dispatch e u)) = UI_MODE_NORMAL
    \<and> catchup_state (fold dispatch ms (dispatch e u)) i
    \<and> pot_coarse_value (fold dispatch ms (dispatch e u)) i = pot_coarse_value u i
    \<and> mode (dispatch m' (fold dispatch ms (dispatch e u))) = UI_MODE_NORMAL
    \<and> pot_coarse_value (dispatch m' (fold dispatch ms (dispatch e u))) i = ucast (data m')
    \<and> \<not> catchup_state (dispatch m' (fold dispatch ms (dispatch e u))) i
    \<and> (0 \<le> sint (data m') \<and> sint (data m') < 65536 \<longrightarrow>
          uint (pot_coarse_value (dispatch m' (fold dispatch ms (dispatch e u))) i)
            = sint (data m'))"
proof -
  define u1 where "u1 = dispatch e u"
  define u2 where "u2 = fold dispatch ms u1"
  define u3 where "u3 = dispatch m' u2"
  note z = short_release_in_zoom[OF assms(1,3,4,5,6), folded u1_def]
  have 1: "mode u1 = UI_MODE_NORMAL" "catchup_state u1 i"
    "pot_coarse_value u1 i = pot_coarse_value u i"
    using z assms(2,7) by simp_all
  have "\<forall>m\<in>set ms. control_type m = CONTROL_POT \<and> control_id m < 4 \<and>
          (control_id m = i \<longrightarrow>
            \<not> \<bar>sint (data m) - uint (pot_coarse_value u1 i)\<bar> < uint kCatchupThreshold)"
    using assms(8) 1(3) by simp
  note f = far_pot_events[OF 1(1) this, folded u2_def]
  have 2: "mode u2 = UI_MODE_NORMAL" "catchup_state u2 i"
    "pot_coarse_value u2 i = pot_coarse_value u i"
    using f 1 by simp_all
  have near: "\<bar>sint (data m') - uint (pot_coarse_value u2 (control_id m'))\<bar> < uint kCatchupThreshold"
    using assms(10,11) 2(3) by simp
  have u3: "u3 = u2\<lparr>pot_coarse_value := (pot_coarse_value u2)(i := ucast (data m')),
                     catchup_state := (catchup_state u2)(i := False)\<rparr>"
    unfolding u3_def pot_event_in_normal[OF 2(1) assms(9)] using near assms(10) by simp
  have 3: "mode u3 = UI_MODE_NORMAL" "pot_coarse_value u3 i = ucast (data m')"
    "\<not> catchup_state u3 i"
    unfolding u3 using 2(1) by simp_all
  have 4: "0 \<le> sint (data m') \<and> sint (data m') < 65536 \<longrightarrow>
          uint (pot_coarse_value u3 i) = sint (data m')"
    unfolding 3(2) using ucast_pot_data[of "data m'"] by blast
  from 1 2 3 4 show ?thesis
    unfolding u1_def u2_def u3_def by blast
qed

theorem catchup_protocol_witness:
  "catchup_state (dispatch (switch_event SWITCH_SELECT 301)
      (booted\<lparr>mode := UI_MODE_ZOOM, pot_value := (\<lambda>_. 5000)\<rparr>)) 0
   \<and> pot_coarse_value (fold dispatch [pot_event 0 5010, pot_event 1 4990, pot_event 0 4990]
        (dispatch (switch_event SWITCH_SELECT 301)
          (booted\<lparr>mode := UI_MODE_ZOOM, pot_value := (\<lambda>_. 5000)\<rparr>))) 0 = 100
   \<and> catchup_state (fold dispatch [pot_event 0 5010, pot_event 1 4990, pot_event 0 4990]
        (dispatch (switch_event SWITCH_SELECT 301)
          (booted\<lparr>mode := UI_MODE_ZOOM, pot_value := (\<lambda>_. 5000)\<rparr>))) 0
   \<and> pot_coarse_value (dispatch (pot_event 0 900)
        (fold dispatch [pot_event 0 5010, pot_event 1 4990, pot_event 0 4990]
          (dispatch (switch_event SWITCH_SELECT 301)
            (booted\<lparr>mode := UI_MODE_ZOOM, pot_value := (\<lambda>_. 5000)\<rparr>)))) 0 = 900
   \<and> \<not> catchup_state (dispatch (pot_event 0 900)
        (fold dispatch [pot_event 0 5010, pot_event 1 4990, pot_event 0 4990]
          (dispatch (switch_event SWITCH_SELECT 301)
            (booted\<lparr>mode := UI_MODE_ZOOM, pot_value := (\<lambda>_. 5000)\<rparr>)))) 0"
proof -
  let ?u = "booted\<lparr>mode := UI_MODE_ZOOM, pot_value := (\<lambda>_. 5000)\<rparr>"
  have c: "pot_coarse_value ?u 0 = 100" "pot_value ?u 0 = 5000" "mode ?u = UI_MODE_ZOOM"
    by (simp_all add: booted_eq zeroed_ui_def)
  have t: "uint kCatchupThreshold = 1024" by (simp add: kCatchupThreshold_def)
  note p = catchup_protocol[where u = ?u and i = 0 and e = "switch_event SWITCH_SELECT 301"
      and ms = "[pot_event 0 5010, pot_event 1 4990, pot_event 0 4990]" and m' = "pot_event 0 900",
      unfolded c t]
  have "(900 :: u16) = ucast (900 :: i32)" by simp
  then show ?thesis
    using p by (simp add: switch_event_def pot_event_def kLongPressDuration_def)
qed

section \<open>The clock divider of the oscillator\<close>

lemma wrap_detect_nat:
  fixes p i K :: nat
  assumes "p < K" and "i < K"
  shows "((p + i) mod K < i) = (K \<le> p + i)"
proof (cases "K \<le> p + i")
  case False
  then have "(p + i) mod K = p + i" by simp
  with False show ?thesis by simp
next
  case True
  have "p + i - K < K" using assms by linarith
  then have "(p + i) mod K = p + i - K"
    using True by (simp add: le_mod_geq)
  with True assms show ?thesis by linarith
qed

lemma div_step_nat:
  fixes t i K :: nat
  assumes "i < K"
  shows "(t + i) div K = t div K + (if K \<le> t mod K + i then 1 else 0)"
proof -
  have K: "0 < K" using assms by simp
  have r: "t mod K < K" using K by simp
  have "t + i = t div K * K + (t mod K + i)" by simp
  then have "(t + i) div K = t div K + (t mod K + i) div K"
    using K by (metis div_mult_self3 less_numeral_extra(3))
  moreover have "(t mod K + i) div K = (if K \<le> t mod K + i then 1 else 0)"
  proof (cases "K \<le> t mod K + i")
    case True
    have "t mod K + i - K < K" using r assms by linarith
    then have "(t mod K + i - K) div K = 0" by simp
    then have "(t mod K + i) div K = 1" using True K by (simp add: le_div_geq)
    with True show ?thesis by simp
  next
    case False
    then show ?thesis by simp
  qed
  ultimately show ?thesis by simp
qed

lemma mod_step_nat:
  fixes t i K :: nat
  shows "(t + i) mod K = (t mod K + i) mod K"
  by (simp add: mod_add_left_eq)

lemma unat_lt_32: "unat (w :: u32) < 4294967296"
  using unsigned_less[of w, where ?'a = nat] by simp

lemma unat_add_32: "unat (a + b :: u32) = (unat a + unat b) mod 4294967296"
  by (simp add: unat_word_ariths)

lemma wrap_test:
  "(phase l + phase_increment l < phase_increment l) = wraps_now l"
  unfolding wraps_now_def word_less_nat_alt unat_add_32
  by (rule wrap_detect_nat) (rule unat_lt_32)+

lemma Step_fields:
  "phase (Step l) = phase l + phase_increment l"
  "phase_increment (Step l) = phase_increment l"
  "divider (Step l) = divider l"
  "divider_count (Step l) =
     (if wraps_now l then (divider_count l + 1) mod divider l else divider_count l)"
  "divided_phase (Step l) =
     phase (Step l) div of_nat (divider l) +
     UINT32_MAX div of_nat (divider l) * of_nat (divider_count (Step l))"
  by (simp_all add: Step_def Let_def wrap_test)

lemma Step_count_bound:
  assumes "1 \<le> divider l" and "divider_count l < divider l"
  shows "divider_count (Step l) < divider l"
  using assms by (simp add: Step_fields)

lemma divided_formula_exact:
  fixes ph :: u32
  assumes "1 \<le> D" and "D < 4294967296" and "c < D"
  shows "unat (ph div of_nat D + UINT32_MAX div of_nat D * of_nat c)
          = unat ph div D + (4294967295 div D) * c"
    and "unat ph div D + (4294967295 div D) * c < 4294967296"
proof -
  have D: "unat (of_nat D :: u32) = D"
    by (rule of_nat_inverse[OF refl]) (use assms(2) in simp)
  have c: "unat (of_nat c :: u32) = c"
    by (rule of_nat_inverse[OF refl]) (use assms(2,3) in simp)
  have m: "unat UINT32_MAX = 4294967295" by (simp add: UINT32_MAX_def)
  have q: "unat (UINT32_MAX div of_nat D) = 4294967295 div D"
    by (simp only: unat_div D m)
  have p: "unat (ph div of_nat D) = unat ph div D"
    by (simp only: unat_div D)
  have "unat ph \<le> 4294967295" using unat_lt_32[of ph] by linarith
  then have le1: "unat ph div D \<le> 4294967295 div D" by (rule div_le_mono)
  have "c \<le> D - 1" using assms(3) by linarith
  then have le2: "(4294967295 div D) * c \<le> (4294967295 div D) * (D - 1)"
    by (rule mult_le_mono2)
  have "(4294967295 div D) * (D - 1) + 4294967295 div D = (4294967295 div D) * D"
    using assms(1) by (metis Suc_diff_1 add.commute less_eq_Suc_le mult_Suc_right One_nat_def)
  moreover have "(4294967295 div D) * D \<le> 4294967295" by simp
  ultimately have b: "unat ph div D + (4294967295 div D) * c \<le> 4294967295"
    using le1 le2 by linarith
  then show lt: "unat ph div D + (4294967295 div D) * c < 4294967296" by linarith
  have "(4294967295 div D) * c < 4294967296" using lt by linarith
  then have "unat (UINT32_MAX div of_nat D) * unat (of_nat c :: u32) < 2 ^ LENGTH(32)"
    unfolding q c by simp
  then have "unat (UINT32_MAX div of_nat D * of_nat c :: u32)
      = unat (UINT32_MAX div of_nat D) * unat (of_nat c :: u32)"
    by (simp only: unat_mult_lem)
  then have pr: "unat (UINT32_MAX div of_nat D * of_nat c :: u32) = (4294967295 div D) * c"
    unfolding q c .
  have "unat (ph div of_nat D) + unat (UINT32_MAX div of_nat D * of_nat c :: u32) < 2 ^ LENGTH(32)"
    unfolding p pr using lt by simp
  then have "unat (ph div of_nat D + UINT32_MAX div of_nat D * of_nat c)
      = unat (ph div of_nat D) + unat (UINT32_MAX div of_nat D * of_nat c :: u32)"
    by (simp only: unat_add_lem)
  then show "unat (ph div of_nat D + UINT32_MAX div of_nat D * of_nat c)
          = unat ph div D + (4294967295 div D) * c"
    unfolding p pr .
qed

lemma Step_divided_exact:
  assumes "1 \<le> divider l" and "divider l < 4294967296" and "divider_count l < divider l"
  shows "unat (divided_phase (Step l)) = spec_divided_phase (Step l)"
    and "spec_divided_phase (Step l) < 4294967296"
proof -
  note b = Step_count_bound[OF assms(1,3)]
  show "unat (divided_phase (Step l)) = spec_divided_phase (Step l)"
    unfolding spec_divided_phase_def Step_fields(5) Step_fields(3)
    by (rule divided_formula_exact(1)[OF assms(1,2) b])
  show "spec_divided_phase (Step l) < 4294967296"
    unfolding spec_divided_phase_def Step_fields(3)
    by (rule divided_formula_exact(2)[OF assms(1,2) b])
qed

lemma Steps_fields:
  assumes "1 \<le> divider l" and "divider_count l < divider l"
  shows "phase_increment ((Step ^^ n) l) = phase_increment l
    \<and> divider ((Step ^^ n) l) = divider l
    \<and> unat (phase ((Step ^^ n) l))
        = (unat (phase l) + n * unat (phase_increment l)) mod 4294967296
    \<and> divider_count ((Step ^^ n) l) = (divider_count l + base_wraps l n) mod divider l"
proof (induction n)
  case 0
  have "unat (phase l) div 4294967296 = 0" using unat_lt_32[of "phase l"] by simp
  then show ?case
    using assms(2) unat_lt_32[of "phase l"] by (simp add: base_wraps_def)
next
  case (Suc n)
  define v where "v = (Step ^^ n) l"
  define T where "T = unat (phase l) + n * unat (phase_increment l)"
  define I where "I = unat (phase_increment l)"
  have ih: "phase_increment v = phase_increment l" "divider v = divider l"
    "unat (phase v) = T mod 4294967296"
    "divider_count v = (divider_count l + T div 4294967296) mod divider l"
    using Suc by (simp_all add: v_def T_def base_wraps_def)
  have I: "I < 4294967296" unfolding I_def by (rule unat_lt_32)
  have T': "unat (phase l) + Suc n * unat (phase_increment l) = T + I"
    by (simp add: T_def I_def)
  have w: "wraps_now v = (4294967296 \<le> T mod 4294967296 + I)"
    by (simp add: wraps_now_def ih I_def)
  have ph: "unat (phase (Step v)) = (T + I) mod 4294967296"
    unfolding Step_fields(1) unat_add_32 ih I_def[symmetric]
    by (rule mod_step_nat[symmetric])
  have dv: "(T + I) div 4294967296 = T div 4294967296 + (if wraps_now v then 1 else 0)"
    unfolding w by (rule div_step_nat[OF I])
  have cnt: "divider_count (Step v) = (divider_count l + (T + I) div 4294967296) mod divider l"
  proof (cases "wraps_now v")
    case True
    have "divider_count (Step v)
        = ((divider_count l + T div 4294967296) mod divider l + 1) mod divider l"
      using True by (simp add: Step_fields ih)
    also have "\<dots> = (divider_count l + T div 4294967296 + 1) mod divider l"
      by (rule mod_add_left_eq)
    finally show ?thesis using True by (simp add: dv)
  next
    case False
    then show ?thesis by (simp add: Step_fields ih dv)
  qed
  have st: "(Step ^^ Suc n) l = Step v" by (simp add: v_def)
  show ?case
    unfolding st base_wraps_def T' using ph cnt by (simp add: Step_fields ih)
qed

lemma Step_continuous:
  assumes "1 \<le> divider l" and "divider_count l < divider l"
    and "\<not> (wraps_now l \<and> divider_count l + 1 = divider l)"
  shows "spec_divided_phase l \<le> spec_divided_phase (Step l)"
proof (cases "wraps_now l")
  case False
  then have "unat (phase l) + unat (phase_increment l) < 4294967296"
    by (simp add: wraps_now_def)
  then have "unat (phase (Step l)) = unat (phase l) + unat (phase_increment l)"
    unfolding Step_fields(1) unat_add_32 by simp
  then have "unat (phase l) div divider l \<le> unat (phase (Step l)) div divider l"
    by (simp add: div_le_mono)
  then show ?thesis
    using False by (simp add: spec_divided_phase_def Step_fields)
next
  case True
  with assms have "divider_count l + 1 < divider l" by linarith
  then have c: "divider_count (Step l) = divider_count l + 1"
    using True by (simp add: Step_fields)
  have "unat (phase l) \<le> 4294967295" using unat_lt_32[of "phase l"] by linarith
  then have "unat (phase l) div divider l \<le> 4294967295 div divider l" by (rule div_le_mono)
  then show ?thesis
    unfolding spec_divided_phase_def Step_fields(3) c by simp
qed

lemma Step_cycle_end:
  assumes "1 \<le> divider l" and "wraps_now l" and "divider_count l + 1 = divider l"
  shows "divider_count (Step l) = 0"
    and "spec_divided_phase (Step l) = unat (phase (Step l)) div divider l"
proof -
  show c: "divider_count (Step l) = 0"
    using assms by (simp add: Step_fields)
  show "spec_divided_phase (Step l) = unat (phase (Step l)) div divider l"
    unfolding spec_divided_phase_def c by (simp add: Step_fields)
qed

lemma count_period:
  fixes c a b D :: nat
  assumes "c < D"
  shows "((c + a) mod D = (c + b) mod D) = (a mod D = b mod D)"
proof
  assume e: "(c + a) mod D = (c + b) mod D"
  have "((c + a) mod D + (D - c)) mod D = ((c + b) mod D + (D - c)) mod D"
    using e by simp
  then have "(c + a + (D - c)) mod D = (c + b + (D - c)) mod D"
    by (simp only: mod_add_left_eq)
  moreover have "c + a + (D - c) = a + D" "c + b + (D - c) = b + D"
    using assms by linarith+
  ultimately show "a mod D = b mod D" by simp
next
  assume "a mod D = b mod D"
  then show "(c + a) mod D = (c + b) mod D"
    by (metis mod_add_right_eq)
qed

text \<open>
  Claim C6. For a divider \<open>D\<close> of at least 1 (and a divider count below \<open>D\<close>, as
  \<open>Init\<close> and \<open>Step\<close> leave it) and any phase increment:
  \<^item> after every step \<open>divided_phase\<close> is the value of the formula
    \<open>phase / D + (UINT32_MAX / D) * divider_count\<close>, computed without overflow;
  \<^item> after \<open>n\<close> steps the phase is the start phase plus \<open>n\<close> increments modulo
    4294967296, and the divider count is the start count plus the number of wraps
    of the accumulator, modulo \<open>D\<close>; so the divider count, and with it the offset
    of the divided phase, returns exactly when the number of wraps in between is a
    multiple of \<open>D\<close>: one cycle of the divided phase per \<open>D\<close> wraps;
  \<^item> from one step to the next the divided phase does not decrease, also when the
    accumulator wraps, except at the wrap that completes the cycle, where the divider
    count returns to 0 and the divided phase restarts at \<open>phase / D\<close>.
\<close>

theorem divided_phase_cycle:
  assumes "1 \<le> divider l" and "divider l < 4294967296" and "divider_count l < divider l"
  shows "unat (divided_phase (Step l)) = spec_divided_phase (Step l)
    \<and> spec_divided_phase (Step l) < 4294967296
    \<and> unat (phase ((Step ^^ n) l))
        = (unat (phase l) + n * unat (phase_increment l)) mod 4294967296
    \<and> divider_count ((Step ^^ n) l) = (divider_count l + base_wraps l n) mod divider l
    \<and> unat (divided_phase ((Step ^^ Suc n) l))
        = ((unat (phase l) + Suc n * unat (phase_increment l)) mod 4294967296) div divider l
          + (4294967295 div divider l) * ((divider_count l + base_wraps l (Suc n)) mod divider l)
    \<and> ((divider_count ((Step ^^ m) l) = divider_count ((Step ^^ n) l))
          = (base_wraps l m mod divider l = base_wraps l n mod divider l))
    \<and> (\<not> (wraps_now (Step l) \<and> divider_count (Step l) + 1 = divider l) \<longrightarrow>
          divided_phase (Step l) \<le> divided_phase (Step (Step l)))
    \<and> (wraps_now l \<and> divider_count l + 1 = divider l \<longrightarrow>
          divider_count (Step l) = 0
          \<and> unat (divided_phase (Step l)) = unat (phase (Step l)) div divider l)"
proof -
  note ex = Step_divided_exact[OF assms]
  note fs = Steps_fields[OF assms(1,3)]
  have ph: "unat (phase ((Step ^^ k) l))
        = (unat (phase l) + k * unat (phase_increment l)) mod 4294967296" for k
    using fs[of k] by blast
  have cn: "divider_count ((Step ^^ k) l) = (divider_count l + base_wraps l k) mod divider l" for k
    using fs[of k] by blast
  have dv: "divider ((Step ^^ k) l) = divider l" for k
    using fs[of k] by blast
  have closed: "unat (divided_phase ((Step ^^ Suc n) l))
        = ((unat (phase l) + Suc n * unat (phase_increment l)) mod 4294967296) div divider l
          + (4294967295 div divider l) * ((divider_count l + base_wraps l (Suc n)) mod divider l)"
  proof -
    define v where "v = (Step ^^ n) l"
    have v: "1 \<le> divider v" "divider v < 4294967296" "divider_count v < divider v"
      using assms(1,2) by (simp_all add: v_def dv cn)
    have st: "(Step ^^ Suc n) l = Step v" by (simp add: v_def)
    have "unat (divided_phase (Step v)) = spec_divided_phase (Step v)"
      by (rule Step_divided_exact(1)[OF v])
    then show ?thesis
      unfolding st[symmetric] spec_divided_phase_def ph cn dv .
  qed
  have period: "(divider_count ((Step ^^ m) l) = divider_count ((Step ^^ n) l))
          = (base_wraps l m mod divider l = base_wraps l n mod divider l)"
    unfolding cn by (rule count_period[OF assms(3)])
  have cont: "\<not> (wraps_now (Step l) \<and> divider_count (Step l) + 1 = divider l) \<longrightarrow>
          divided_phase (Step l) \<le> divided_phase (Step (Step l))"
  proof
    assume a: "\<not> (wraps_now (Step l) \<and> divider_count (Step l) + 1 = divider l)"
    have v: "1 \<le> divider (Step l)" "divider (Step l) < 4294967296"
      "divider_count (Step l) < divider (Step l)"
      using assms Step_count_bound[OF assms(1,3)] by (simp_all add: Step_fields(3))
    have a': "\<not> (wraps_now (Step l) \<and> divider_count (Step l) + 1 = divider (Step l))"
      using a by (simp add: Step_fields(3))
    have "spec_divided_phase (Step l) \<le> spec_divided_phase (Step (Step l))"
      by (rule Step_continuous[OF v(1,3) a'])
    then have "unat (divided_phase (Step l)) \<le> unat (divided_phase (Step (Step l)))"
      unfolding ex(1) Step_divided_exact(1)[OF v] .
    then show "divided_phase (Step l) \<le> divided_phase (Step (Step l))"
      by (simp only: word_le_nat_alt)
  qed
  have fin: "wraps_now l \<and> divider_count l + 1 = divider l \<longrightarrow>
          divider_count (Step l) = 0
          \<and> unat (divided_phase (Step l)) = unat (phase (Step l)) div divider l"
    using Step_cycle_end[OF assms(1)] ex(1) by simp
  from ex ph[of n] cn[of n] closed period cont fin show ?thesis by blast
qed

theorem divided_phase_cycle_witness:
  "divider_count ((Step ^^ 2) divided_by_3) = 1
   \<and> divider_count ((Step ^^ 4) divided_by_3) = 2
   \<and> divider_count ((Step ^^ 6) divided_by_3) = 0
   \<and> unat (divided_phase ((Step ^^ Suc 4) divided_by_3)) = 3579139412
   \<and> unat (divided_phase ((Step ^^ Suc 5) divided_by_3)) = 0"
proof -
  have a: "1 \<le> divider divided_by_3" "divider divided_by_3 < 4294967296"
    "divider_count divided_by_3 < divider divided_by_3"
    by (simp_all add: divided_by_3_def Lfo_Init_def)
  have f: "unat (phase divided_by_3) = 0" "unat (phase_increment divided_by_3) = 2147483648"
    "divider divided_by_3 = 3" "divider_count divided_by_3 = 0"
    by (simp_all add: divided_by_3_def Lfo_Init_def)
  note t = divided_phase_cycle[OF a, unfolded f base_wraps_def]
  show ?thesis
    using t[of 2] t[of 4] t[of 6] t[of 5] by simp
qed

section \<open>Octave doubling of the phase increment\<close>

text \<open>
  With a positive \<open>kOctave\<close> both loops of \<open>ComputePhaseIncrement\<close> terminate, no
  16-bit variable overflows, and they leave the pitch modulo \<open>kOctave\<close> and the
  (floor) quotient of the pitch by \<open>kOctave\<close> as the number of shifts.
\<close>

lemma sint16_add:
  fixes a b :: i16
  assumes "- 32768 \<le> sint a + sint b" and "sint a + sint b \<le> 32767"
  shows "sint (a + b) = sint a + sint b"
proof -
  have "signed_take_bit 15 (sint a + sint b) = sint a + sint b"
    by (rule signed_take_bit_int_eq_self) (use assms in simp_all)
  then show ?thesis by (simp add: sint_word_ariths)
qed

lemma sint16_diff:
  fixes a b :: i16
  assumes "- 32768 \<le> sint a - sint b" and "sint a - sint b \<le> 32767"
  shows "sint (a - b) = sint a - sint b"
proof -
  have "signed_take_bit 15 (sint a - sint b) = sint a - sint b"
    by (rule signed_take_bit_int_eq_self) (use assms in simp_all)
  then show ?thesis by (simp add: sint_word_ariths)
qed

lemma sint16_range: "- 32768 \<le> sint (a :: i16)" "sint (a :: i16) \<le> 32767"
  using sint_ge[of a] sint_lt[of a] by simp_all

lemma octave_up_loop_result:
  assumes "0 < sint k"
    and "sint p < 0 \<longrightarrow> - 32768 \<le> sint n + sint p div sint k"
  shows "\<exists>p' n'. octave_up_loop k p n = Some (p', n')
    \<and> sint p' = (if sint p < 0 then sint p mod sint k else sint p)
    \<and> sint n' = (if sint p < 0 then sint n + sint p div sint k else sint n)"
  using assms(2)
proof (induction "nat (- sint p)" arbitrary: p n rule: less_induct)
  case less
  show ?case
  proof (cases "sint p < 0")
    case False
    then have "\<not> p <s 0" by (simp add: word_sless_alt)
    then have "octave_up_loop k p n = Some (p, n)"
      by (subst octave_up_loop.simps) simp
    with False show ?thesis by simp
  next
    case True
    define K where "K = sint k"
    define P where "P = sint p"
    define N where "N = sint n"
    have K: "0 < K" "K \<le> 32767" using assms(1) sint16_range(2)[of k] by (simp_all add: K_def)
    have P: "P < 0" "- 32768 \<le> P" using True sint16_range(1)[of p] by (simp_all add: P_def)
    have "P div K < 0" using P(1) K(1) by (rule div_neg_pos_less0)
    then have q: "P div K \<le> - 1" by linarith
    have lo: "- 32768 \<le> N + P div K" using less.prems True by (simp add: N_def P_def K_def)
    have "- 32768 \<le> sint p + sint k" "sint p + sint k \<le> 32767"
      using P K by (simp_all add: P_def K_def)
    then have "sint (p + k) = sint p + sint k" by (rule sint16_add)
    then have p1: "sint (p + k) = P + K" unfolding P_def K_def .
    have one: "sint (1 :: i16) = 1" by simp
    have "- 32768 \<le> N - 1" "N - 1 \<le> 32767"
      using lo q sint16_range(2)[of n] by (simp_all add: N_def)
    then have "- 32768 \<le> sint n - sint (1 :: i16)" "sint n - sint (1 :: i16) \<le> 32767"
      unfolding one N_def by simp_all
    then have "sint (n - 1) = sint n - sint (1 :: i16)" by (rule sint16_diff)
    then have n1: "sint (n - 1) = N - 1" unfolding one N_def .
    have unf: "octave_up_loop k p n = octave_up_loop k (p + k) (n - 1)"
      using True by (subst octave_up_loop.simps) (simp add: word_sless_alt)
    have "K \<noteq> 0" using K(1) by simp
    then have dv: "(P + K) div K = P div K + 1" "(P + K) mod K = P mod K"
      by (simp_all add: div_add_self2)
    have m: "nat (- sint (p + k)) < nat (- sint p)"
      unfolding p1 using P K by (simp add: P_def)
    have pre: "sint (p + k) < 0 \<longrightarrow> - 32768 \<le> sint (n - 1) + sint (p + k) div sint k"
      unfolding p1 n1 using lo dv by (simp add: K_def)
    from less.hyps[OF m pre] obtain p' n' where r:
      "octave_up_loop k (p + k) (n - 1) = Some (p', n')"
      "sint p' = (if P + K < 0 then (P + K) mod K else P + K)"
      "sint n' = (if P + K < 0 then N - 1 + (P + K) div K else N - 1)"
      unfolding p1 n1 K_def[symmetric] by blast
    have "sint p' = P mod K \<and> sint n' = N + P div K"
    proof (cases "P + K < 0")
      case True
      with r dv show ?thesis by simp
    next
      case False
      then have b: "0 \<le> P + K" "P + K < K" using P by simp_all
      have "(P + K) mod K = P + K" using b by (rule mod_pos_pos_trivial)
      moreover have "(P + K) div K = 0" using b by (rule div_pos_pos_trivial)
      ultimately have "P mod K = P + K" "P div K = - 1" unfolding dv by linarith+
      with r False show ?thesis by simp
    qed
    with r(1) unf True show ?thesis by (simp add: P_def K_def N_def)
  qed
qed

lemma octave_down_loop_result:
  assumes "0 < sint k" and "0 \<le> sint p"
    and "sint n + sint p div sint k \<le> 32767"
  shows "\<exists>p' n'. octave_down_loop k p n = Some (p', n')
    \<and> sint p' = sint p mod sint k
    \<and> sint n' = sint n + sint p div sint k"
  using assms(2,3)
proof (induction "nat (sint p)" arbitrary: p n rule: less_induct)
  case less
  define K where "K = sint k"
  define P where "P = sint p"
  define N where "N = sint n"
  have K: "0 < K" using assms(1) by (simp add: K_def)
  have P: "0 \<le> P" "P \<le> 32767" using less.prems(1) sint16_range(2)[of p] by (simp_all add: P_def)
  have hi: "N + P div K \<le> 32767" using less.prems(2) by (simp add: N_def P_def K_def)
  show ?case
  proof (cases "K \<le> P")
    case False
    then have "\<not> k \<le>s p" by (simp add: word_sle_eq K_def P_def)
    then have "octave_down_loop k p n = Some (p, n)"
      by (subst octave_down_loop.simps) simp
    moreover have "P mod K = P" using P(1) False by (intro mod_pos_pos_trivial) simp_all
    moreover have "P div K = 0" using P(1) False by (intro div_pos_pos_trivial) simp_all
    ultimately show ?thesis by (simp add: P_def K_def)
  next
    case True
    have "- 32768 \<le> sint p - sint k" "sint p - sint k \<le> 32767"
      using P K True by (simp_all add: P_def K_def)
    then have "sint (p - k) = sint p - sint k" by (rule sint16_diff)
    then have p1: "sint (p - k) = P - K" unfolding P_def K_def .
    have "K \<noteq> 0" using K by simp
    then have "(P - K + K) div K = (P - K) div K + 1" by (rule div_add_self2)
    moreover have "(P - K + K) mod K = (P - K) mod K" by (rule mod_add_self2)
    moreover have "P - K + K = P" by simp
    ultimately have dv: "(P - K) div K = P div K - 1" "(P - K) mod K = P mod K"
      by simp_all
    have "0 \<le> (P - K) div K" using True K by (simp add: pos_imp_zdiv_nonneg_iff)
    then have q: "1 \<le> P div K" unfolding dv by linarith
    have one: "sint (1 :: i16) = 1" by simp
    have "- 32768 \<le> N + 1" "N + 1 \<le> 32767"
      using hi q sint16_range(1)[of n] by (simp_all add: N_def)
    then have "- 32768 \<le> sint n + sint (1 :: i16)" "sint n + sint (1 :: i16) \<le> 32767"
      unfolding one N_def by simp_all
    then have "sint (n + 1) = sint n + sint (1 :: i16)" by (rule sint16_add)
    then have n1: "sint (n + 1) = N + 1" unfolding one N_def .
    have unf: "octave_down_loop k p n = octave_down_loop k (p - k) (n + 1)"
      using True by (subst octave_down_loop.simps) (simp add: word_sle_eq K_def P_def)
    have m: "nat (sint (p - k)) < nat (sint p)"
      unfolding p1 using True K by (simp add: P_def)
    have pre: "0 \<le> sint (p - k)" "sint (n + 1) + sint (p - k) div sint k \<le> 32767"
      unfolding p1 n1 K_def[symmetric] dv using True hi by simp_all
    from less.hyps[OF m pre] obtain p' n' where r:
      "octave_down_loop k (p - k) (n + 1) = Some (p', n')"
      "sint p' = (P - K) mod K" "sint n' = N + 1 + (P - K) div K"
      unfolding p1 n1 K_def[symmetric] by blast
    have "sint p' = P mod K \<and> sint n' = N + P div K"
      using r(2,3) unfolding dv by simp
    with r(1) unf show ?thesis by (simp add: P_def K_def N_def)
  qed
qed

lemma ComputePhaseIncrement_result:
  assumes "0 < sint (kOctave r)"
  shows "\<exists>p' n'. ComputePhaseIncrement r p l
            = Some (shift_increment (lookup_increment r p') n', l\<lparr>pitch := p\<rparr>)
    \<and> sint p' = sint p mod sint (kOctave r)
    \<and> sint n' = sint p div sint (kOctave r)"
proof -
  define K where "K = sint (kOctave r)"
  define P where "P = sint p"
  have K: "0 < K" using assms by (simp add: K_def)
  have P: "- 32768 \<le> P" "P \<le> 32767" using sint16_range[of p] by (simp_all add: P_def)
  have z: "sint (0 :: i16) = 0" by simp
  have "P div 1 \<le> P div K" if "P < 0"
    using that K by (intro zdiv_mono2_neg) simp_all
  then have lo: "P < 0 \<longrightarrow> - 32768 \<le> P div K" using P(1) by auto
  have "sint p < 0 \<longrightarrow> - 32768 \<le> sint (0 :: i16) + sint p div sint (kOctave r)"
    unfolding z using lo by (simp add: P_def K_def)
  from octave_up_loop_result[OF assms this] obtain p1 n1 where up:
    "octave_up_loop (kOctave r) p 0 = Some (p1, n1)"
    "sint p1 = (if P < 0 then P mod K else P)"
    "sint n1 = (if P < 0 then P div K else 0)"
    unfolding z P_def K_def by auto
  have p1: "0 \<le> sint p1" using up(2) K by simp
  have d1: "sint p1 mod K = P mod K" using up(2) by simp
  have d2: "sint n1 + sint p1 div K = P div K"
  proof (cases "P < 0")
    case True
    have "0 \<le> P mod K" "P mod K < K" using K by simp_all
    then have "(P mod K) div K = 0" by (rule div_pos_pos_trivial)
    with True up show ?thesis by simp
  next
    case False
    with up show ?thesis by simp
  qed
  have "P div K \<le> 32767"
  proof (cases "P < 0")
    case True
    then have "P div K < 0" using K by (rule div_neg_pos_less0)
    then show ?thesis by linarith
  next
    case False
    then have "P div K \<le> P div 1" using K by (intro zdiv_mono2) simp_all
    with P show ?thesis by simp
  qed
  then have "sint n1 + sint p1 div sint (kOctave r) \<le> 32767"
    using d2 by (simp add: K_def)
  from octave_down_loop_result[OF assms p1 this] obtain p2 n2 where down:
    "octave_down_loop (kOctave r) p1 n1 = Some (p2, n2)"
    "sint p2 = P mod K" "sint n2 = P div K"
    unfolding K_def[symmetric] d1 d2 by blast
  have "ComputePhaseIncrement r p l
      = Some (shift_increment (lookup_increment r p2) n2, l\<lparr>pitch := p\<rparr>)"
    by (simp add: ComputePhaseIncrement_def up(1) down(1))
  with down(2,3) show ?thesis unfolding P_def K_def by blast
qed

lemma word_minus_doubled_half:
  fixes b :: u32
  shows "b - push_bit 1 (drop_bit 1 b) \<le> 1"
proof -
  have "push_bit 1 (drop_bit 1 b) + take_bit 1 b = b" by (rule bits_ident)
  then have e: "b - push_bit 1 (drop_bit 1 b) = take_bit 1 b"
    by (metis add_diff_cancel_left')
  have "unat (take_bit 1 b) = take_bit 1 (unat b)" by (rule unsigned_take_bit_eq)
  moreover have "take_bit 1 (unat b) < 2 ^ 1" by (rule take_bit_nat_less_exp)
  ultimately have "unat (take_bit 1 b) \<le> unat (1 :: u32)" by simp
  then show ?thesis unfolding e by (simp only: word_le_nat_alt)
qed

lemma shift_octave_up:
  assumes "sint m = sint n + 1"
  shows "(0 \<le> sint n \<longrightarrow> shift_increment x m = push_bit 1 (shift_increment x n))
    \<and> (sint n < 0 \<longrightarrow> shift_increment x n = drop_bit 1 (shift_increment x m))
    \<and> shift_increment x m - push_bit 1 (shift_increment x n) \<le> 1"
proof (cases "0 \<le> sint n")
  case True
  then have "nat (sint m) = 1 + nat (sint n)" using assms by simp
  then have "shift_increment x m = push_bit 1 (shift_increment x n)"
    using True assms by (simp add: shift_increment_def)
  with True show ?thesis by simp
next
  case False
  have h: "shift_increment x n = drop_bit 1 (shift_increment x m)"
  proof (cases "sint n = - 1")
    case True
    then show ?thesis using assms by (simp add: shift_increment_def)
  next
    case False
    with \<open>\<not> 0 \<le> sint n\<close> have "sint m < 0" using assms by simp
    moreover have "nat (- sint n) = 1 + nat (- sint m)" using assms \<open>sint m < 0\<close> by simp
    ultimately show ?thesis using \<open>\<not> 0 \<le> sint n\<close> by (simp add: shift_increment_def)
  qed
  have "shift_increment x m - push_bit 1 (shift_increment x n) \<le> 1"
    unfolding h by (rule word_minus_doubled_half)
  with h False show ?thesis by simp
qed

text \<open>
  Claim C5. For a pitch such that \<open>pitch + kOctave\<close> is representable in 16 bits and
  the shift counts of both calls are below 32 in magnitude,
  \<open>ComputePhaseIncrement(pitch + kOctave)\<close> is \<open>ComputePhaseIncrement(pitch)\<close> shifted
  left by one, within integer rounding: both calls return, the two results come from
  the same interpolated table value, they are equal exactly when the pitch is not
  negative, and for a negative pitch the lower octave is the higher one shifted right
  by one, so that the higher one exceeds the doubled lower one by the bit shifted out,
  0 or 1.
\<close>

theorem octave_doubling:
  assumes "0 < sint (kOctave r)" and "sint p + sint (kOctave r) \<le> 32767"
    and "- 32 < sint p div sint (kOctave r)" and "sint p div sint (kOctave r) + 1 < 32"
  shows "\<exists>a b. ComputePhaseIncrement r p l = Some (a, l\<lparr>pitch := p\<rparr>)
      \<and> ComputePhaseIncrement r (p + kOctave r) l' = Some (b, l'\<lparr>pitch := p + kOctave r\<rparr>)
      \<and> (0 \<le> sint p \<longrightarrow> b = push_bit 1 a)
      \<and> (sint p < 0 \<longrightarrow> a = drop_bit 1 b)
      \<and> b - push_bit 1 a \<le> 1"
proof -
  define K where "K = sint (kOctave r)"
  define P where "P = sint p"
  have K: "0 < K" using assms(1) by (simp add: K_def)
  from ComputePhaseIncrement_result[OF assms(1), of p l] obtain p1 n1 where lo:
    "ComputePhaseIncrement r p l
        = Some (shift_increment (lookup_increment r p1) n1, l\<lparr>pitch := p\<rparr>)"
    "sint p1 = P mod K" "sint n1 = P div K"
    unfolding P_def K_def by blast
  from ComputePhaseIncrement_result[OF assms(1), of "p + kOctave r" l'] obtain p2 n2 where hi:
    "ComputePhaseIncrement r (p + kOctave r) l'
        = Some (shift_increment (lookup_increment r p2) n2, l'\<lparr>pitch := p + kOctave r\<rparr>)"
    "sint p2 = sint (p + kOctave r) mod K" "sint n2 = sint (p + kOctave r) div K"
    unfolding K_def by blast
  have "- 32768 \<le> sint p + sint (kOctave r)"
    using sint16_range(1)[of p] assms(1) by linarith
  then have "sint (p + kOctave r) = sint p + sint (kOctave r)"
    using assms(2) by (rule sint16_add)
  then have s: "sint (p + kOctave r) = P + K" unfolding P_def K_def .
  have "K \<noteq> 0" using K by simp
  then have dv: "(P + K) div K = P div K + 1" "(P + K) mod K = P mod K"
    by (simp_all add: div_add_self2)
  have "sint p2 = sint p1" using hi(2) lo(2) unfolding s dv by simp
  then have same: "p2 = p1" by (rule signed_word_eqI)
  have "sint n2 = sint n1 + 1" using hi(3) lo(3) unfolding s dv by simp
  note sh = shift_octave_up[OF this, of "lookup_increment r p1"]
  have sign: "(0 \<le> sint n1) = (0 \<le> sint p)"
    unfolding lo(3) P_def[symmetric] using K by (rule pos_imp_zdiv_nonneg_iff)
  have sign2: "(sint n1 < 0) = (sint p < 0)" using sign by linarith
  define a where "a = shift_increment (lookup_increment r p1) n1"
  define b where "b = shift_increment (lookup_increment r p1) n2"
  have "ComputePhaseIncrement r p l = Some (a, l\<lparr>pitch := p\<rparr>)"
    using lo(1) by (simp add: a_def)
  moreover have "ComputePhaseIncrement r (p + kOctave r) l'
      = Some (b, l'\<lparr>pitch := p + kOctave r\<rparr>)"
    using hi(1) by (simp add: b_def same)
  moreover have "0 \<le> sint p \<longrightarrow> b = push_bit 1 a"
    using sh sign by (simp add: a_def b_def)
  moreover have "sint p < 0 \<longrightarrow> a = drop_bit 1 b"
    using sh unfolding sign2 by (simp add: a_def b_def)
  moreover have "b - push_bit 1 a \<le> 1"
    using sh by (simp add: a_def b_def)
  ultimately show ?thesis by blast
qed

lemma example_loops:
  "octave_up_loop 1536 (- 100) 0 = Some (1436, - 1)"
  "octave_up_loop 1536 1436 0 = Some (1436, 0)"
  "octave_down_loop 1536 1436 n = Some (1436, n)"
proof -
  show "octave_up_loop 1536 1436 0 = Some (1436, 0)"
    by (subst octave_up_loop.simps) (simp add: word_sless_alt)
  have "octave_up_loop 1536 1436 (- 1) = Some (1436, - 1)"
    by (subst octave_up_loop.simps) (simp add: word_sless_alt)
  then show "octave_up_loop 1536 (- 100) 0 = Some (1436, - 1)"
    by (subst octave_up_loop.simps) (simp add: word_sless_alt)
  show "octave_down_loop 1536 1436 n = Some (1436, n)"
    by (subst octave_down_loop.simps) (simp add: word_sle_eq)
qed

lemma example_lookup: "lookup_increment example_resources 1436 = 1710731"
  by (simp add: lookup_increment_def example_resources_def drop_bit_eq_div)

lemma example_increments:
  "ComputePhaseIncrement example_resources (- 100) zeroed_lfo
     = Some (855365, zeroed_lfo\<lparr>pitch := - 100\<rparr>)"
  "ComputePhaseIncrement example_resources 1436 zeroed_lfo
     = Some (1710731, zeroed_lfo\<lparr>pitch := 1436\<rparr>)"
proof -
  have k: "kOctave example_resources = 1536" by (simp add: example_resources_def)
  show "ComputePhaseIncrement example_resources (- 100) zeroed_lfo
     = Some (855365, zeroed_lfo\<lparr>pitch := - 100\<rparr>)"
    unfolding ComputePhaseIncrement_def k
    by (simp add: example_loops example_lookup shift_increment_def drop_bit_eq_div)
  show "ComputePhaseIncrement example_resources 1436 zeroed_lfo
     = Some (1710731, zeroed_lfo\<lparr>pitch := 1436\<rparr>)"
    unfolding ComputePhaseIncrement_def k
    by (simp add: example_loops example_lookup shift_increment_def)
qed

theorem octave_doubling_witness:
  "ComputePhaseIncrement example_resources (- 100) zeroed_lfo
     = Some (855365, zeroed_lfo\<lparr>pitch := - 100\<rparr>)
   \<and> ComputePhaseIncrement example_resources 1436 zeroed_lfo
     = Some (1710731, zeroed_lfo\<lparr>pitch := 1436\<rparr>)
   \<and> (1710731 :: u32) - push_bit 1 855365 \<le> 1
   \<and> ComputePhaseIncrement example_resources 2972 zeroed_lfo
     = Some (push_bit 1 1710731, zeroed_lfo\<lparr>pitch := 2972\<rparr>)"
proof -
  have k: "kOctave example_resources = 1536" by (simp add: example_resources_def)
  have s: "sint (1536 :: i16) = 1536" "sint (- 100 :: i16) = - 100" "sint (1436 :: i16) = 1436"
    by simp_all
  have p: "(- 100 :: i16) + 1536 = 1436" "(1436 :: i16) + 1536 = 2972" by simp_all
  from octave_doubling[of example_resources "- 100" zeroed_lfo zeroed_lfo, unfolded k s p]
  obtain a b where 1:
    "ComputePhaseIncrement example_resources (- 100) zeroed_lfo = Some (a, zeroed_lfo\<lparr>pitch := - 100\<rparr>)"
    "ComputePhaseIncrement example_resources 1436 zeroed_lfo = Some (b, zeroed_lfo\<lparr>pitch := 1436\<rparr>)"
    "b - push_bit 1 a \<le> 1"
    by auto
  from octave_doubling[of example_resources 1436 zeroed_lfo zeroed_lfo, unfolded k s p]
  obtain c d where 2:
    "ComputePhaseIncrement example_resources 1436 zeroed_lfo = Some (c, zeroed_lfo\<lparr>pitch := 1436\<rparr>)"
    "ComputePhaseIncrement example_resources 2972 zeroed_lfo = Some (d, zeroed_lfo\<lparr>pitch := 2972\<rparr>)"
    "d = push_bit 1 c"
    by auto
  have "a = 855365" "b = 1710731" "c = 1710731"
    using 1(1,2) 2(1) unfolding example_increments by simp_all
  with 1 2 show ?thesis by simp
qed

end
